theory Spec2Isabelle
  imports Main "HOL-Library.AList" "HOL-Library.Char_ord" "HOL-Library.List_Lexorder"
begin

section \<open>Data model\<close>

text \<open>
  The package \<open>dispatcher\<close> reconstructs an itinerary from a list of tickets.
  A ticket is a Go \<open>[]string\<close>, so a ticket list is a \<open>string list list\<close>; the code
  reads \<open>ticket[0]\<close> and \<open>ticket[1]\<close>, which panics on a shorter slice.  Go strings are
  byte sequences compared bytewise, which is the lexicographic order on \<open>char list\<close>.

  The three sentinel errors of the package, and the run-time panic of an index out of
  range, are the values of \<open>error\<close>.
\<close>

datatype error =
    ErrMultipleSameDestination
  | ErrCycleInItinerary
  | ErrDifferentStartingPoints
  | PanicIndexOutOfRange

text \<open>
  A Go map is finite; it is modelled as an association list that is only read by key
  (\<open>map_of\<close>) and written by key (\<open>AList.update\<close>).  The position of a key in the list
  is never observed: a \<open>range\<close> over a map visits its keys in an order that Go leaves
  unspecified, and that order is an explicit argument of every function that ranges.
\<close>

type_synonym ('k, 'v) gomap = "('k \<times> 'v) list"

definition keys :: "('k, 'v) gomap \<Rightarrow> 'k set" where
  "keys m = fst ` set m"

text \<open>\<open>m[k]\<close> on a map of counters: the zero value when the key is absent.\<close>

definition count_at :: "('k, int) gomap \<Rightarrow> 'k \<Rightarrow> int" where
  "count_at m k = (case map_of m k of None \<Rightarrow> 0 | Some n \<Rightarrow> n)"

text \<open>\<open>m[k]++\<close>.  Counters never exceed the number of tickets, so Go's 64-bit \<open>int\<close>
  does not wrap and is modelled by \<open>int\<close>.\<close>

definition incr :: "('k, int) gomap \<Rightarrow> 'k \<Rightarrow> ('k, int) gomap" where
  "incr m k = AList.update k (count_at m k + 1) m"

text \<open>\<open>graph[k]\<close>: the nil slice when the key is absent.\<close>

definition adj :: "(string, string list) gomap \<Rightarrow> string \<Rightarrow> string list" where
  "adj graph k = (case map_of graph k of None \<Rightarrow> [] | Some ds \<Rightarrow> ds)"

text \<open>A list \<open>ks\<close> is a possible visiting order of \<open>range m\<close>: every key once.\<close>

definition range_order :: "'k list \<Rightarrow> ('k, 'v) gomap \<Rightarrow> bool" where
  "range_order ks m \<longleftrightarrow> distinct ks \<and> set ks = keys m"

section \<open>validateTickets\<close>

fun validateTickets_loop ::
  "string list list \<Rightarrow> (string \<times> string, int) gomap \<Rightarrow> error + (string \<times> string, int) gomap"
where
  "validateTickets_loop [] ticketCount = Inr ticketCount"
| "validateTickets_loop (ticket # rest) ticketCount =
     (if length ticket < 2 then Inl PanicIndexOutOfRange
      else
        let key = (ticket ! 0, ticket ! 1);
            ticketCount' = incr ticketCount key
        in if count_at ticketCount' key > 1 then Inl ErrMultipleSameDestination
           else validateTickets_loop rest ticketCount')"

definition validateTickets ::
  "string list list \<Rightarrow> error + (string \<times> string, int) gomap" where
  "validateTickets tickets = validateTickets_loop tickets []"

section \<open>buildGraph\<close>

type_synonym graph = "(string, string list) gomap"
type_synonym degree = "(string, int) gomap"

fun buildGraph_insert ::
  "string list list \<Rightarrow> graph \<times> degree \<times> degree \<Rightarrow> error + (graph \<times> degree \<times> degree)"
where
  "buildGraph_insert [] tabs = Inr tabs"
| "buildGraph_insert (ticket # rest) (graph, outDegree, inDegree) =
     (if length ticket < 2 then Inl PanicIndexOutOfRange
      else
        let src = ticket ! 0; dst = ticket ! 1
        in buildGraph_insert rest
             (AList.update src (adj graph src @ [dst]) graph,
              incr outDegree src,
              incr inDegree dst))"

text \<open>
  \<open>sort.Slice\<close> with the comparison \<open>graph[src][i] > graph[src][j]\<close> leaves a
  permutation of the slice in descending order.  The order on strings is total, so
  that permutation is unique: the ascending sort, reversed.
\<close>

definition sort_desc :: "string list \<Rightarrow> string list" where
  "sort_desc ds = rev (sort ds)"

text \<open>The second loop of \<open>buildGraph\<close>: \<open>for src := range graph\<close>, in the order \<open>ks\<close>.\<close>

fun buildGraph_sort :: "string list \<Rightarrow> graph \<Rightarrow> graph" where
  "buildGraph_sort [] graph = graph"
| "buildGraph_sort (src # rest) graph =
     buildGraph_sort rest
       (case map_of graph src of
          None \<Rightarrow> graph
        | Some ds \<Rightarrow> AList.update src (sort_desc ds) graph)"

definition buildGraph ::
  "(graph \<Rightarrow> string list) \<Rightarrow> string list list \<Rightarrow> error + (graph \<times> degree \<times> degree)" where
  "buildGraph order tickets =
     (case buildGraph_insert tickets ([], [], []) of
        Inl e \<Rightarrow> Inl e
      | Inr (graph, outDegree, inDegree) \<Rightarrow>
          Inr (buildGraph_sort (order graph) graph, outDegree, inDegree))"

section \<open>findStartingPoint\<close>

text \<open>The first loop, over \<open>range outDegree\<close> in the order given; the flag is
  \<open>validStart\<close>, and \<open>break\<close> leaves the loop with the candidates found so far.\<close>

fun findStartingPoint_scan ::
  "string list \<Rightarrow> degree \<Rightarrow> degree \<Rightarrow> string list \<Rightarrow> string list \<times> bool" where
  "findStartingPoint_scan [] outDegree inDegree startCandidates = (startCandidates, True)"
| "findStartingPoint_scan (node # rest) outDegree inDegree startCandidates =
     (let diff = count_at outDegree node - count_at inDegree node
      in if diff = 1 then
           findStartingPoint_scan rest outDegree inDegree (startCandidates @ [node])
         else if diff < - 1 \<or> diff > 1 then (startCandidates, False)
         else findStartingPoint_scan rest outDegree inDegree startCandidates)"

text \<open>The second loop (``check if all nodes are balanced''), which returns the same
  error from inside as the function does after it.\<close>

fun findStartingPoint_balanced :: "string list \<Rightarrow> degree \<Rightarrow> degree \<Rightarrow> error + string" where
  "findStartingPoint_balanced [] outDegree inDegree = Inl ErrDifferentStartingPoints"
| "findStartingPoint_balanced (node # rest) outDegree inDegree =
     (if count_at outDegree node \<noteq> count_at inDegree node then Inl ErrDifferentStartingPoints
      else findStartingPoint_balanced rest outDegree inDegree)"

definition findStartingPoint ::
  "string list \<Rightarrow> string list \<Rightarrow> degree \<Rightarrow> degree \<Rightarrow> error + string" where
  "findStartingPoint ks1 ks2 outDegree inDegree =
     (case findStartingPoint_scan ks1 outDegree inDegree [] of
        (startCandidates, validStart) \<Rightarrow>
          if \<not> validStart \<or> length startCandidates > 1 then Inl ErrDifferentStartingPoints
          else if length startCandidates = 1 then Inr (startCandidates ! 0)
          else findStartingPoint_balanced ks2 outDegree inDegree)"

section \<open>validateEndPoints\<close>

fun validateEndPoints_loop ::
  "string list \<Rightarrow> degree \<Rightarrow> degree \<Rightarrow> int \<Rightarrow> error + int" where
  "validateEndPoints_loop [] outDegree inDegree endCandidates = Inr endCandidates"
| "validateEndPoints_loop (node # rest) outDegree inDegree endCandidates =
     (let diff = count_at inDegree node - count_at outDegree node
      in if diff = 1 then validateEndPoints_loop rest outDegree inDegree (endCandidates + 1)
         else if diff < - 1 \<or> diff > 1 then Inl ErrDifferentStartingPoints
         else validateEndPoints_loop rest outDegree inDegree endCandidates)"

text \<open>The Go function returns an \<open>error\<close> that is \<open>nil\<close> on success: \<open>None\<close> here.\<close>

definition validateEndPoints ::
  "string list \<Rightarrow> string list \<Rightarrow> degree \<Rightarrow> degree \<Rightarrow> error option" where
  "validateEndPoints ks startCandidates outDegree inDegree =
     (case validateEndPoints_loop ks outDegree inDegree 0 of
        Inl e \<Rightarrow> Some e
      | Inr endCandidates \<Rightarrow>
          if length startCandidates = 1 \<and> endCandidates \<noteq> 1
          then Some ErrDifferentStartingPoints
          else None)"

section \<open>findPath\<close>

text \<open>The variables of the walk loop.  The top of the stack is its last element, and
  the next destination of a node is the last element of its adjacency slice.\<close>

record walk =
  wgraph :: graph
  wstack :: "string list"
  wresult :: "string list"

text \<open>One iteration of \<open>for len(stack) > 0\<close>.\<close>

definition findPath_step :: "walk \<Rightarrow> walk" where
  "findPath_step w =
     (let curr = last (wstack w)
      in case map_of (wgraph w) curr of
           Some dests \<Rightarrow>
             if length dests > 0 then
               let nextDest = last dests
               in w\<lparr>wgraph := AList.update curr (butlast dests) (wgraph w),
                     wstack := wstack w @ [nextDest]\<rparr>
             else w\<lparr>wresult := wresult w @ [curr], wstack := butlast (wstack w)\<rparr>
         | None \<Rightarrow> w\<lparr>wresult := wresult w @ [curr], wstack := butlast (wstack w)\<rparr>)"

text \<open>The number of edges left in the graph.\<close>

definition edge_count :: "graph \<Rightarrow> nat" where
  "edge_count g = sum_list (map (\<lambda>kv. length (snd kv)) g)"

lemma edge_count_update:
  "map_of g k = Some ds \<Longrightarrow>
   edge_count (AList.update k ds' g) + length ds = edge_count g + length ds'"
  by (induction g) (auto simp: edge_count_def)

lemma edge_count_step:
  assumes "map_of (wgraph w) (last (wstack w)) = Some dests" "dests \<noteq> []"
  shows "wgraph (findPath_step w) = AList.update (last (wstack w)) (butlast dests) (wgraph w)"
    and "wstack (findPath_step w) = wstack w @ [last dests]"
    and "wresult (findPath_step w) = wresult w"
    and "edge_count (wgraph (findPath_step w)) + 1 = edge_count (wgraph w)"
proof -
  show g: "wgraph (findPath_step w) = AList.update (last (wstack w)) (butlast dests) (wgraph w)"
    using assms by (simp add: findPath_step_def Let_def)
  show "wstack (findPath_step w) = wstack w @ [last dests]"
    using assms by (simp add: findPath_step_def Let_def)
  show "wresult (findPath_step w) = wresult w"
    using assms by (simp add: findPath_step_def Let_def)
  from edge_count_update[OF assms(1), of "butlast dests"] assms(2)
  show "edge_count (wgraph (findPath_step w)) + 1 = edge_count (wgraph w)"
    unfolding g by (cases dests rule: rev_cases) auto
qed

lemma pop_step:
  assumes "map_of (wgraph w) (last (wstack w)) = None
           \<or> map_of (wgraph w) (last (wstack w)) = Some []"
  shows "wgraph (findPath_step w) = wgraph w"
    and "wstack (findPath_step w) = butlast (wstack w)"
    and "wresult (findPath_step w) = wresult w @ [last (wstack w)]"
  using assms by (auto simp: findPath_step_def Let_def)

text \<open>The loop itself.  Every iteration either consumes an edge and pushes a node or
  pops a node, so twice the number of edges plus the height of the stack decreases.\<close>

definition walk_measure :: "walk \<Rightarrow> nat" where
  "walk_measure w = 2 * edge_count (wgraph w) + length (wstack w)"

lemma walk_measure_step:
  assumes "wstack w \<noteq> []"
  shows "walk_measure (findPath_step w) + 1 = walk_measure w"
proof (cases "map_of (wgraph w) (last (wstack w))")
  case None
  with pop_step[of w] assms show ?thesis by (simp add: walk_measure_def)
next
  case (Some dests)
  show ?thesis
  proof (cases "dests = []")
    case True
    with Some pop_step[of w] assms show ?thesis by (simp add: walk_measure_def)
  next
    case False
    with Some edge_count_step[of w dests] show ?thesis by (simp add: walk_measure_def)
  qed
qed

function findPath_loop :: "walk \<Rightarrow> walk" where
  "findPath_loop w =
     (if length (wstack w) > 0 then findPath_loop (findPath_step w) else w)"
  by pat_completeness auto
termination
proof (relation "measure walk_measure")
  show "wf (measure walk_measure)" by simp
next
  fix w :: walk
  assume "0 < length (wstack w)"
  then have "wstack w \<noteq> []" by simp
  from walk_measure_step[OF this]
  show "(findPath_step w, w) \<in> measure walk_measure" by simp
qed

declare findPath_loop.simps [simp del]

text \<open>The closing loop of \<open>findPath\<close> reverses \<open>result\<close> in place by swapping
  \<open>result[i]\<close> and \<open>result[j]\<close> from both ends.  Both indices stay inside the slice.\<close>

function reverse_loop :: "int \<Rightarrow> int \<Rightarrow> string list \<Rightarrow> string list" where
  "reverse_loop i j result =
     (if i < j then
        reverse_loop (i + 1) (j - 1)
          (result[nat i := result ! nat j, nat j := result ! nat i])
      else result)"
  by pat_completeness auto
termination
  by (relation "measure (\<lambda>(i, j, result). nat (j - i))") auto

declare reverse_loop.simps [simp del]

definition findPath :: "string \<Rightarrow> graph \<Rightarrow> string list" where
  "findPath start graph =
     (let w = findPath_loop \<lparr>wgraph = graph, wstack = [start], wresult = []\<rparr>;
          result = wresult w
      in reverse_loop 0 (int (length result) - 1) result)"

section \<open>ReconstructItinerary\<close>

text \<open>
  The orders in which the four \<open>range\<close> loops of one call visit their maps: the
  sorting loop of \<open>buildGraph\<close>, the two loops of \<open>findStartingPoint\<close> and the loop
  of \<open>validateEndPoints\<close>.  Go fixes none of them, so each is a function of the map
  ranged over, and a call is described for every choice of them.
\<close>

record schedule =
  order_graph :: "graph \<Rightarrow> string list"
  order_start :: "degree \<Rightarrow> string list"
  order_balanced :: "degree \<Rightarrow> string list"
  order_end :: "degree \<Rightarrow> string list"

definition ReconstructItinerary :: "schedule \<Rightarrow> string list list \<Rightarrow> error + string list" where
  "ReconstructItinerary sch tickets =
     (if length tickets = 0 then Inr []
      else
        case validateTickets tickets of
          Inl e \<Rightarrow> Inl e
        | Inr _ \<Rightarrow>
           (case buildGraph (order_graph sch) tickets of
              Inl e \<Rightarrow> Inl e
            | Inr (graph, outDegree, inDegree) \<Rightarrow>
               (case findStartingPoint (order_start sch outDegree) (order_balanced sch outDegree)
                       outDegree inDegree of
                  Inl e \<Rightarrow> Inl e
                | Inr start \<Rightarrow>
                   (case validateEndPoints (order_end sch inDegree) [start] outDegree inDegree of
                      Some e \<Rightarrow> Inl e
                    | None \<Rightarrow>
                        let result = findPath start graph
                        in if length result \<ge> 2 \<and> result ! 0 = result ! (length result - 1)
                           then Inl ErrCycleInItinerary
                           else Inr result))))"

text \<open>A schedule is one Go could follow when every loop visits each key of its map
  exactly once.\<close>

definition fair :: "schedule \<Rightarrow> bool" where
  "fair sch \<longleftrightarrow>
     (\<forall>g. range_order (order_graph sch g) g) \<and>
     (\<forall>d. range_order (order_start sch d) d) \<and>
     (\<forall>d. range_order (order_balanced sch d) d) \<and>
     (\<forall>d. range_order (order_end sch d) d)"

section \<open>Vocabulary of the specification\<close>

text \<open>The ordered pair \<open>(source, destination)\<close> of a ticket: the key
  \<open>[2]string{ticket[0], ticket[1]}\<close> that \<open>validateTickets\<close> counts.\<close>

definition ticket_key :: "string list \<Rightarrow> string \<times> string" where
  "ticket_key ticket = (ticket ! 0, ticket ! 1)"

text \<open>The precondition the caller owes: every ticket has a source and a destination.\<close>

definition well_formed :: "string list list \<Rightarrow> bool" where
  "well_formed tickets \<longleftrightarrow> (\<forall>ticket \<in> set tickets. length ticket \<ge> 2)"

text \<open>Out-degree and in-degree of a node: the number of tickets that leave it and
  that enter it.\<close>

definition out_degree :: "string list list \<Rightarrow> string \<Rightarrow> int" where
  "out_degree tickets n = int (length (filter (\<lambda>t. t ! 0 = n) tickets))"

definition in_degree :: "string list list \<Rightarrow> string \<Rightarrow> int" where
  "in_degree tickets n = int (length (filter (\<lambda>t. t ! 1 = n) tickets))"

text \<open>Two concrete schedules: every loop visits the keys in the order of their first
  insertion, or in the opposite order.\<close>

definition insertion_order :: "('k, 'v) gomap \<Rightarrow> 'k list" where
  "insertion_order m = remdups (map fst m)"

definition forward :: schedule where
  "forward = \<lparr>order_graph = insertion_order, order_start = insertion_order,
              order_balanced = insertion_order, order_end = insertion_order\<rparr>"

definition backward :: schedule where
  "backward = \<lparr>order_graph = (\<lambda>m. rev (insertion_order m)),
               order_start = (\<lambda>m. rev (insertion_order m)),
               order_balanced = (\<lambda>m. rev (insertion_order m)),
               order_end = (\<lambda>m. rev (insertion_order m))\<rparr>"

text \<open>The endpoint conditions of the specification: one start candidate, no imbalance
  above one, one end candidate.\<close>

definition endpoints_ok :: "string list list \<Rightarrow> bool" where
  "endpoints_ok tickets \<longleftrightarrow>
     card {n. out_degree tickets n - in_degree tickets n = 1} = 1
     \<and> (\<forall>n. \<bar>out_degree tickets n - in_degree tickets n\<bar> \<le> 1)
     \<and> card {n. in_degree tickets n - out_degree tickets n = 1} = 1"

text \<open>The edges still in a graph, and the steps (consecutive pairs) of a sequence of
  stops.\<close>

definition edges_of :: "graph \<Rightarrow> (string \<times> string) set" where
  "edges_of g = {(u, v). v \<in> set (adj g u)}"

definition steps :: "string list \<Rightarrow> (string \<times> string) list" where
  "steps stops = zip stops (tl stops)"

text \<open>The number of edges that enter a node.\<close>

definition in_count :: "graph \<Rightarrow> string \<Rightarrow> nat" where
  "in_count g x = card {y. (y, x) \<in> edges_of g}"

text \<open>A sequence of stops is a valid trail of a ticket list without repeated tickets
  when its steps are exactly the tickets, each once.\<close>

definition eulerian_trail :: "string list list \<Rightarrow> string list \<Rightarrow> bool" where
  "eulerian_trail tickets stops \<longleftrightarrow>
     stops \<noteq> [] \<and> distinct (steps stops) \<and> set (steps stops) = set (map ticket_key tickets)"

text \<open>The same for a set of edges, and the edges that can be reached from a node.\<close>

definition trail :: "(string \<times> string) set \<Rightarrow> string list \<Rightarrow> bool" where
  "trail S q \<longleftrightarrow> q \<noteq> [] \<and> distinct (steps q) \<and> set (steps q) = S"

definition reach_edges :: "(string \<times> string) set \<Rightarrow> string \<Rightarrow> (string \<times> string) set" where
  "reach_edges E u = {(x, y) \<in> E. (u, x) \<in> E\<^sup>*}"

text \<open>Every adjacency list in descending order; and the graphs that \<open>buildGraph\<close>
  returns for tickets without repetition: one entry per key, no destination twice under
  a key, lists descending.\<close>

definition descending :: "graph \<Rightarrow> bool" where
  "descending g \<longleftrightarrow> (\<forall>u. sorted (rev (adj g u)))"

definition good :: "graph \<Rightarrow> bool" where
  "good g \<longleftrightarrow> distinct (map fst g) \<and> (\<forall>x. distinct (adj g x)) \<and> descending g"

text \<open>The walk loop started on a single node, and the invariant of the walk from
  \<open>s\<close> on the graph \<open>g0\<close>: what is missing from an adjacency list leads to
  visited nodes, finished nodes have no edges left, visited nodes can be reached from
  \<open>s\<close>, and \<open>s\<close> lies at the bottom of the stack until it is finished last.\<close>

definition run :: "graph \<Rightarrow> string \<Rightarrow> walk" where
  "run g u = findPath_loop \<lparr>wgraph = g, wstack = [u], wresult = []\<rparr>"

definition walk_inv :: "graph \<Rightarrow> string \<Rightarrow> walk \<Rightarrow> bool" where
  "walk_inv g0 s w \<longleftrightarrow>
     (\<forall>u. \<exists>ys. adj g0 u = adj (wgraph w) u @ ys
              \<and> set ys \<subseteq> set (wstack w) \<union> set (wresult w)
              \<and> (ys \<noteq> [] \<longrightarrow> u \<in> set (wstack w) \<union> set (wresult w)))
     \<and> (\<forall>u \<in> set (wresult w). adj (wgraph w) u = [])
     \<and> set (wstack w) \<union> set (wresult w) \<subseteq> (edges_of g0)\<^sup>* `` {s}
     \<and> (if wstack w = [] then wresult w \<noteq> [] \<and> last (wresult w) = s else hd (wstack w) = s)
     \<and> distinct (map fst (wgraph w))"

section \<open>Maps\<close>

lemma count_at_incr: "count_at (incr m k) k' = count_at m k' + (if k' = k then 1 else 0)"
  by (simp add: incr_def count_at_def update_conv')

lemma keys_incr: "keys (incr m k) = insert k (keys m)"
  by (simp add: incr_def keys_def dom_update)

lemma count_at_Nil: "count_at [] k = 0"
  by (simp add: count_at_def)

lemma adj_update: "adj (AList.update k v g) k' = (if k' = k then v else adj g k')"
  by (simp add: adj_def update_conv')

lemma keys_update: "keys (AList.update k v g) = insert k (keys g)"
  by (simp add: keys_def dom_update)

lemma well_formed_Cons: "well_formed (t # ts) \<longleftrightarrow> length t \<ge> 2 \<and> well_formed ts"
  by (auto simp: well_formed_def)

section \<open>The validator\<close>

lemma validateTickets_loop_fresh: "\<not> length t < 2 \<Longrightarrow> count_at tc (ticket_key t) = 0 \<Longrightarrow> validateTickets_loop (t # ts) tc = validateTickets_loop ts (incr tc (ticket_key t))"
  by (simp add: Let_def count_at_incr ticket_key_def)

lemma validateTickets_loop_repeat: "\<not> length t < 2 \<Longrightarrow> count_at tc (ticket_key t) = 1 \<Longrightarrow> validateTickets_loop (t # ts) tc = Inl ErrMultipleSameDestination"
  by (simp add: Let_def count_at_incr ticket_key_def)

lemma validateTickets_loop_char:
  assumes "well_formed ts" "\<forall>k. count_at tc k = 0 \<or> count_at tc k = 1"
  shows "if distinct (map ticket_key ts) \<and> (\<forall>t \<in> set ts. count_at tc (ticket_key t) = 0)
         then (\<exists>tc'. validateTickets_loop ts tc = Inr tc')
         else validateTickets_loop ts tc = Inl ErrMultipleSameDestination"
  using assms
proof (induction ts arbitrary: tc)
  case Nil
  then show ?case by simp
next
  case (Cons t ts)
  let ?k = "ticket_key t"
  let ?tc = "incr tc ?k"
  from Cons.prems have len: "\<not> length t < 2" and wf: "well_formed ts"
    by (auto simp: well_formed_Cons)
  show ?case
  proof (cases "count_at tc ?k = 0")
    case True
    have inv: "\<forall>k. count_at ?tc k = 0 \<or> count_at ?tc k = 1"
    proof
      fix k show "count_at ?tc k = 0 \<or> count_at ?tc k = 1"
        using Cons.prems(2)[rule_format, of k] True by (simp add: count_at_incr)
    qed
    have step: "validateTickets_loop (t # ts) tc = validateTickets_loop ts ?tc"
      using len True by (rule validateTickets_loop_fresh)
    have pt: "count_at ?tc k' = 0 \<longleftrightarrow> k' \<noteq> ?k \<and> count_at tc k' = 0" for k'
      using True by (simp add: count_at_incr)
    have eq: "(\<forall>t' \<in> set ts. count_at ?tc (ticket_key t') = 0) \<longleftrightarrow>
              ?k \<notin> set (map ticket_key ts) \<and> (\<forall>t' \<in> set ts. count_at tc (ticket_key t') = 0)"
      unfolding pt by (auto simp: image_iff)
    have "(distinct (map ticket_key (t # ts)) \<and> (\<forall>t' \<in> set (t # ts). count_at tc (ticket_key t') = 0))
          \<longleftrightarrow> (distinct (map ticket_key ts) \<and> (\<forall>t' \<in> set ts. count_at ?tc (ticket_key t') = 0))"
      unfolding eq using True by auto
    with Cons.IH[OF wf inv] show ?thesis
      unfolding step by presburger
  next
    case False
    with Cons.prems(2) have one: "count_at tc ?k = 1" by blast
    have "validateTickets_loop (t # ts) tc = Inl ErrMultipleSameDestination"
      using len one by (rule validateTickets_loop_repeat)
    then show ?thesis using one by auto
  qed
qed

lemma validateTickets_char:
  assumes "well_formed tickets"
  shows "if distinct (map ticket_key tickets)
         then (\<exists>tc. validateTickets tickets = Inr tc)
         else validateTickets tickets = Inl ErrMultipleSameDestination"
  using validateTickets_loop_char[OF assms, of "[]"]
  by (simp add: validateTickets_def count_at_Nil)

section \<open>The graph builder\<close>

lemma buildGraph_insert_Inr:
  "well_formed ts \<Longrightarrow> \<exists>g' od' id'. buildGraph_insert ts (g, od, idg) = Inr (g', od', id')"
proof (induction ts arbitrary: g od idg)
  case Nil
  then show ?case by simp
next
  case (Cons t ts)
  from Cons.prems have len: "\<not> length t < 2" and wf: "well_formed ts"
    by (auto simp: well_formed_Cons)
  show ?case using len Cons.IH[OF wf] by (simp add: Let_def)
qed

lemma buildGraph_insert_Cons:
  "buildGraph_insert (t # ts) (g, od, idg) = Inr r \<Longrightarrow>
   buildGraph_insert ts
      (AList.update (t ! 0) (adj g (t ! 0) @ [t ! 1]) g, incr od (t ! 0), incr idg (t ! 1)) = Inr r"
  by (simp add: Let_def split: if_splits)

lemma buildGraph_insert_out:
  "buildGraph_insert ts (g, od, idg) = Inr (g', od', id') \<Longrightarrow>
   count_at od' n = count_at od n + out_degree ts n"
proof (induction ts arbitrary: g od idg)
  case Nil
  then show ?case by (simp add: out_degree_def)
next
  case (Cons t ts)
  from Cons.IH[OF buildGraph_insert_Cons[OF Cons.prems]] show ?case
    by (simp add: count_at_incr out_degree_def)
qed

lemma buildGraph_insert_in:
  "buildGraph_insert ts (g, od, idg) = Inr (g', od', id') \<Longrightarrow>
   count_at id' n = count_at idg n + in_degree ts n"
proof (induction ts arbitrary: g od idg)
  case Nil
  then show ?case by (simp add: in_degree_def)
next
  case (Cons t ts)
  from Cons.IH[OF buildGraph_insert_Cons[OF Cons.prems]] show ?case
    by (simp add: count_at_incr in_degree_def)
qed

lemma buildGraph_insert_adj:
  "buildGraph_insert ts (g, od, idg) = Inr (g', od', id') \<Longrightarrow>
   adj g' n = adj g n @ map (\<lambda>t. t ! 1) (filter (\<lambda>t. t ! 0 = n) ts)"
proof (induction ts arbitrary: g od idg)
  case Nil
  then show ?case by simp
next
  case (Cons t ts)
  from Cons.IH[OF buildGraph_insert_Cons[OF Cons.prems]] show ?case
    by (simp add: adj_update)
qed

lemma buildGraph_insert_keys:
  "buildGraph_insert ts (g, od, idg) = Inr (g', od', id') \<Longrightarrow>
   keys g' = keys g \<union> (\<lambda>t. t ! 0) ` set ts \<and>
   keys od' = keys od \<union> (\<lambda>t. t ! 0) ` set ts \<and>
   keys id' = keys idg \<union> (\<lambda>t. t ! 1) ` set ts"
proof (induction ts arbitrary: g od idg)
  case Nil
  then show ?case by simp
next
  case (Cons t ts)
  from Cons.IH[OF buildGraph_insert_Cons[OF Cons.prems]] show ?case
    by (simp add: keys_update keys_incr)
qed

lemma buildGraph_insert_distinct:
  "buildGraph_insert ts (g, od, idg) = Inr (g', od', id') \<Longrightarrow>
   distinct (map fst g) \<Longrightarrow> distinct (map fst g')"
proof (induction ts arbitrary: g od idg)
  case Nil
  then show ?case by simp
next
  case (Cons t ts)
  from Cons.IH[OF buildGraph_insert_Cons[OF Cons.prems(1)]] Cons.prems(2) show ?case
    by (simp add: distinct_update)
qed

lemma update_as_map:
  "distinct (map fst g) \<Longrightarrow> map_of g k = Some ds \<Longrightarrow>
   AList.update k (f ds) g = map (\<lambda>(k', d). (k', if k' = k then f d else d)) g"
proof (induction g)
  case Nil
  then show ?case by simp
next
  case (Cons p g)
  obtain k' d where p: "p = (k', d)" by (cases p)
  show ?case
  proof (cases "k' = k")
    case True
    with Cons.prems p have "k \<notin> fst ` set g" and d: "d = ds" by auto
    then have "map (\<lambda>(k', d). (k', if k' = k then f d else d)) g = g"
      by (induction g) auto
    with True p d show ?thesis by simp
  next
    case False
    with Cons p show ?thesis by simp
  qed
qed

lemma absent_as_map:
  "map_of g k = None \<Longrightarrow> map (\<lambda>(k', d). (k', if k' = k then f d else d)) g = g"
  by (induction g) (auto split: if_splits)

lemma buildGraph_sort_char:
  "distinct ks \<Longrightarrow> distinct (map fst g) \<Longrightarrow>
   buildGraph_sort ks g = map (\<lambda>(k, ds). (k, if k \<in> set ks then sort_desc ds else ds)) g"
proof (induction ks arbitrary: g)
  case Nil
  then show ?case by (simp add: case_prod_unfold)
next
  case (Cons k ks)
  let ?g1 = "map (\<lambda>(k', d). (k', if k' = k then sort_desc d else d)) g"
  have g1: "(case map_of g k of None \<Rightarrow> g | Some ds \<Rightarrow> AList.update k (sort_desc ds) g) = ?g1"
    using update_as_map[OF Cons.prems(2), of k _ sort_desc] absent_as_map[of g k sort_desc]
    by (auto split: option.splits)
  have d1: "distinct (map fst ?g1)"
    using Cons.prems(2) by (simp add: case_prod_unfold comp_def)
  from Cons.prems(1) have dk: "distinct ks" and nk: "k \<notin> set ks" by auto
  have "buildGraph_sort (k # ks) g = buildGraph_sort ks ?g1"
    by (simp only: buildGraph_sort.simps g1)
  also have "\<dots> = map (\<lambda>(k, ds). (k, if k \<in> set ks then sort_desc ds else ds)) ?g1"
    by (rule Cons.IH[OF dk d1])
  also have "\<dots> = map (\<lambda>(k', ds). (k', if k' \<in> set (k # ks) then sort_desc ds else ds)) g"
    using nk by (auto simp: case_prod_unfold)
  finally show ?case .
qed

lemma buildGraph_sort_range:
  assumes "range_order ks g" "distinct (map fst g)"
  shows "buildGraph_sort ks g = map (\<lambda>(k, ds). (k, sort_desc ds)) g"
proof -
  from assms(1) have d: "distinct ks" and s: "set ks = fst ` set g"
    by (auto simp: range_order_def keys_def)
  have "map (\<lambda>(k, ds). (k, if k \<in> set ks then sort_desc ds else ds)) g
        = map (\<lambda>(k, ds). (k, sort_desc ds)) g"
    unfolding s by (rule map_cong) force+
  with buildGraph_sort_char[OF d assms(2)] show ?thesis by simp
qed

section \<open>The endpoint resolver\<close>

lemma findStartingPoint_scan_Cons:
  "findStartingPoint_scan (k # ks) od idg c =
     (if count_at od k - count_at idg k = 1 then findStartingPoint_scan ks od idg (c @ [k])
      else if \<bar>count_at od k - count_at idg k\<bar> \<le> 1 then findStartingPoint_scan ks od idg c
      else (c, False))"
  by (auto simp: Let_def)

lemma findStartingPoint_scan_valid:
  "snd (findStartingPoint_scan ks od idg c) \<longleftrightarrow>
     (\<forall>n \<in> set ks. \<bar>count_at od n - count_at idg n\<bar> \<le> 1)"
proof (induction ks arbitrary: c)
  case Nil
  then show ?case by simp
next
  case (Cons k ks)
  show ?case unfolding findStartingPoint_scan_Cons using Cons.IH by auto
qed

lemma findStartingPoint_scan_candidates:
  "\<forall>n \<in> set ks. \<bar>count_at od n - count_at idg n\<bar> \<le> 1 \<Longrightarrow>
   fst (findStartingPoint_scan ks od idg c) =
     c @ filter (\<lambda>n. count_at od n - count_at idg n = 1) ks"
proof (induction ks arbitrary: c)
  case Nil
  then show ?case by simp
next
  case (Cons k ks)
  from Cons.prems have "\<forall>n \<in> set ks. \<bar>count_at od n - count_at idg n\<bar> \<le> 1"
    and "\<bar>count_at od k - count_at idg k\<bar> \<le> 1" by auto
  then show ?case unfolding findStartingPoint_scan_Cons using Cons.IH by auto
qed

lemma findStartingPoint_balanced_err:
  "findStartingPoint_balanced ks od idg = Inl ErrDifferentStartingPoints"
  by (induction ks) auto

lemma findStartingPoint_char:
  "findStartingPoint ks1 ks2 od idg =
     (if (\<forall>n \<in> set ks1. \<bar>count_at od n - count_at idg n\<bar> \<le> 1)
         \<and> length (filter (\<lambda>n. count_at od n - count_at idg n = 1) ks1) = 1
      then Inr (hd (filter (\<lambda>n. count_at od n - count_at idg n = 1) ks1))
      else Inl ErrDifferentStartingPoints)"
proof -
  obtain cs v where s: "findStartingPoint_scan ks1 od idg [] = (cs, v)"
    by (cases "findStartingPoint_scan ks1 od idg []")
  have v: "v \<longleftrightarrow> (\<forall>n \<in> set ks1. \<bar>count_at od n - count_at idg n\<bar> \<le> 1)"
    using findStartingPoint_scan_valid[of ks1 od idg "[]"] s by simp
  show ?thesis
  proof (cases v)
    case False
    with v have nv: "\<not> (\<forall>n \<in> set ks1. \<bar>count_at od n - count_at idg n\<bar> \<le> 1)"
      by simp
    have "findStartingPoint ks1 ks2 od idg = Inl ErrDifferentStartingPoints"
      using False by (simp add: findStartingPoint_def s)
    then show ?thesis using nv by simp
  next
    case True
    with v findStartingPoint_scan_candidates[of ks1 od idg "[]"] s
    have cs: "cs = filter (\<lambda>n. count_at od n - count_at idg n = 1) ks1" by simp
    have hd: "length cs = 1 \<Longrightarrow> cs ! 0 = hd cs" by (cases cs) auto
    show ?thesis using True v hd unfolding findStartingPoint_def s cs[symmetric]
      by (auto simp: findStartingPoint_balanced_err)
  qed
qed

lemma validateEndPoints_loop_Cons:
  "validateEndPoints_loop (k # ks) od idg c =
     (if count_at idg k - count_at od k = 1 then validateEndPoints_loop ks od idg (c + 1)
      else if \<bar>count_at idg k - count_at od k\<bar> \<le> 1 then validateEndPoints_loop ks od idg c
      else Inl ErrDifferentStartingPoints)"
  by (auto simp: Let_def)

lemma validateEndPoints_loop_char:
  "validateEndPoints_loop ks od idg c =
     (if \<forall>n \<in> set ks. \<bar>count_at idg n - count_at od n\<bar> \<le> 1
      then Inr (c + int (length (filter (\<lambda>n. count_at idg n - count_at od n = 1) ks)))
      else Inl ErrDifferentStartingPoints)"
proof (induction ks arbitrary: c)
  case Nil
  then show ?case by simp
next
  case (Cons k ks)
  show ?case unfolding validateEndPoints_loop_Cons Cons.IH by auto
qed

lemma validateEndPoints_char:
  "validateEndPoints ks [start] od idg =
     (if (\<forall>n \<in> set ks. \<bar>count_at idg n - count_at od n\<bar> \<le> 1)
         \<and> length (filter (\<lambda>n. count_at idg n - count_at od n = 1) ks) = 1
      then None else Some ErrDifferentStartingPoints)"
  by (simp add: validateEndPoints_def validateEndPoints_loop_char)

section \<open>The path walker\<close>

lemma length_reverse_loop: "length (reverse_loop i j xs) = length xs"
proof (induction i j xs rule: reverse_loop.induct)
  case (1 i j result)
  show ?case
  proof (cases "i < j")
    case True
    with 1 show ?thesis by (subst reverse_loop.simps) simp
  next
    case False
    then show ?thesis by (subst reverse_loop.simps) simp
  qed
qed

lemma nth_reverse_loop:
  "0 \<le> i \<Longrightarrow> j < int (length xs) \<Longrightarrow> 0 \<le> k \<Longrightarrow> k < int (length xs) \<Longrightarrow>
   reverse_loop i j xs ! nat k = (if i \<le> k \<and> k \<le> j then xs ! nat (i + j - k) else xs ! nat k)"
proof (induction i j xs rule: reverse_loop.induct)
  case (1 i j result)
  show ?case
  proof (cases "i < j")
    case False
    have "reverse_loop i j result = result"
      using False by (subst reverse_loop.simps) simp
    moreover have "i \<le> k \<and> k \<le> j \<Longrightarrow> i + j - k = k" using False by linarith
    ultimately show ?thesis by auto
  next
    case True
    let ?r = "result[nat i := result ! nat j, nat j := result ! nat i]"
    have unf: "reverse_loop i j result = reverse_loop (i + 1) (j - 1) ?r"
      using True by (subst reverse_loop.simps) simp
    have IH: "reverse_loop (i + 1) (j - 1) ?r ! nat k =
        (if i + 1 \<le> k \<and> k \<le> j - 1 then ?r ! nat (i + 1 + (j - 1) - k) else ?r ! nat k)"
      using "1.IH"[OF True] "1.prems" by simp
    have ni: "nat i < length result" and nj: "nat j < length result" and nij: "nat i \<noteq> nat j"
      using True "1.prems" by auto
    consider "i + 1 \<le> k \<and> k \<le> j - 1" | "k = i" | "k = j" | "k < i" | "k > j" by linarith
    then show ?thesis
    proof cases
      case 1
      then have "nat (i + 1 + (j - 1) - k) \<noteq> nat i" "nat (i + 1 + (j - 1) - k) \<noteq> nat j"
        using "1.prems" by auto
      then have "?r ! nat (i + 1 + (j - 1) - k) = result ! nat (i + j - k)"
        by (simp add: algebra_simps)
      with IH 1 show ?thesis unfolding unf by auto
    next
      case 2
      with IH True ni nj nij show ?thesis unfolding unf by (simp add: nth_list_update)
    next
      case 3
      with IH True ni nj nij show ?thesis unfolding unf by (simp add: nth_list_update)
    next
      case 4
      then have "nat k \<noteq> nat i" "nat k \<noteq> nat j" using "1.prems" True by auto
      with IH 4 show ?thesis unfolding unf by simp
    next
      case 5
      then have "nat k \<noteq> nat i" "nat k \<noteq> nat j" using "1.prems" True by auto
      with IH 5 show ?thesis unfolding unf by simp
    qed
  qed
qed

lemma reverse_loop_rev: "reverse_loop 0 (int (length xs) - 1) xs = rev xs"
proof (rule nth_equalityI)
  show "length (reverse_loop 0 (int (length xs) - 1) xs) = length (rev xs)"
    by (simp add: length_reverse_loop)
next
  fix n assume "n < length (reverse_loop 0 (int (length xs) - 1) xs)"
  then have n: "n < length xs" by (simp add: length_reverse_loop)
  have "reverse_loop 0 (int (length xs) - 1) xs ! nat (int n) =
     (if 0 \<le> int n \<and> int n \<le> int (length xs) - 1
      then xs ! nat (0 + (int (length xs) - 1) - int n) else xs ! nat (int n))"
    by (rule nth_reverse_loop) (use n in auto)
  moreover have "nat (0 + (int (length xs) - 1) - int n) = length xs - Suc n"
    using n by auto
  ultimately show "reverse_loop 0 (int (length xs) - 1) xs ! n = rev xs ! n"
    using n by (simp add: rev_nth)
qed

lemma findPath_loop_rule:
  assumes "P w" and "\<And>w. P w \<Longrightarrow> wstack w \<noteq> [] \<Longrightarrow> P (findPath_step w)"
  shows "P (findPath_loop w) \<and> wstack (findPath_loop w) = []"
  using assms(1)
proof (induction w rule: findPath_loop.induct)
  case (1 w)
  show ?case
  proof (cases "wstack w = []")
    case True
    with 1 show ?thesis by (subst (1 2) findPath_loop.simps) simp
  next
    case False
    from assms(2)[OF "1.prems" False] have "P (findPath_step w)" .
    with "1.IH" False have "P (findPath_loop (findPath_step w)) \<and>
         wstack (findPath_loop (findPath_step w)) = []" by simp
    with False show ?thesis by (subst (1 2) findPath_loop.simps) simp
  qed
qed

lemma findPath_loop_iterations:
  "\<exists>n. n + 2 * edge_count (wgraph (findPath_loop w)) = walk_measure w \<and>
       findPath_loop w = (findPath_step ^^ n) w \<and>
       wstack ((findPath_step ^^ n) w) = [] \<and>
       (\<forall>m < n. wstack ((findPath_step ^^ m) w) \<noteq> [])"
proof (induction w rule: findPath_loop.induct)
  case (1 w)
  show ?case
  proof (cases "wstack w = []")
    case True
    then have "findPath_loop w = w" by (subst findPath_loop.simps) simp
    with True have "0 + 2 * edge_count (wgraph (findPath_loop w)) = walk_measure w \<and>
       findPath_loop w = (findPath_step ^^ 0) w \<and>
       wstack ((findPath_step ^^ 0) w) = [] \<and>
       (\<forall>m < 0. wstack ((findPath_step ^^ m) w) \<noteq> [])"
      by (simp add: walk_measure_def)
    then show ?thesis by blast
  next
    case False
    then have unf: "findPath_loop w = findPath_loop (findPath_step w)"
      by (subst findPath_loop.simps) simp
    from "1.IH" False obtain n where
      n: "n + 2 * edge_count (wgraph (findPath_loop (findPath_step w))) = walk_measure (findPath_step w)"
      and eq: "findPath_loop (findPath_step w) = (findPath_step ^^ n) (findPath_step w)"
      and fin: "wstack ((findPath_step ^^ n) (findPath_step w)) = []"
      and run: "\<forall>m < n. wstack ((findPath_step ^^ m) (findPath_step w)) \<noteq> []"
      by auto
    have "Suc n + 2 * edge_count (wgraph (findPath_loop w)) = walk_measure w"
      using n walk_measure_step[OF False] unfolding unf by simp
    moreover have "findPath_loop w = (findPath_step ^^ Suc n) w"
      unfolding unf eq by (simp add: funpow_swap1)
    moreover have "wstack ((findPath_step ^^ Suc n) w) = []"
      using fin by (simp add: funpow_swap1)
    moreover have "\<forall>m < Suc n. wstack ((findPath_step ^^ m) w) \<noteq> []"
    proof (intro allI impI)
      fix m assume "m < Suc n"
      show "wstack ((findPath_step ^^ m) w) \<noteq> []"
      proof (cases m)
        case 0
        with False show ?thesis by simp
      next
        case (Suc m')
        with \<open>m < Suc n\<close> run show ?thesis by (simp add: funpow_swap1)
      qed
    qed
    ultimately show ?thesis by blast
  qed
qed

lemma conservation_step:
  assumes "wstack w \<noteq> []"
  shows "edge_count (wgraph (findPath_step w)) + length (wstack (findPath_step w))
           + length (wresult (findPath_step w))
         = edge_count (wgraph w) + length (wstack w) + length (wresult w)"
proof (cases "map_of (wgraph w) (last (wstack w))")
  case None
  with pop_step[of w] assms show ?thesis by simp
next
  case (Some dests)
  show ?thesis
  proof (cases "dests = []")
    case True
    with Some pop_step[of w] assms show ?thesis by simp
  next
    case False
    with Some edge_count_step[of w dests] show ?thesis by simp
  qed
qed

lemma conservation_loop:
  "edge_count (wgraph (findPath_loop w)) + length (wresult (findPath_loop w))
   = edge_count (wgraph w) + length (wstack w) + length (wresult w)"
proof -
  let ?c = "edge_count (wgraph w) + length (wstack w) + length (wresult w)"
  have "(edge_count (wgraph (findPath_loop w)) + length (wstack (findPath_loop w))
           + length (wresult (findPath_loop w)) = ?c) \<and> wstack (findPath_loop w) = []"
    by (rule findPath_loop_rule[where P = "\<lambda>w'. edge_count (wgraph w') + length (wstack w')
           + length (wresult w') = ?c"]) (simp_all add: conservation_step)
  then have a: "edge_count (wgraph (findPath_loop w)) + length (wstack (findPath_loop w))
           + length (wresult (findPath_loop w)) = ?c" and b: "wstack (findPath_loop w) = []"
    by blast+
  show ?thesis using a unfolding b by simp
qed

lemma findPath_rev:
  "findPath start graph =
     rev (wresult (findPath_loop \<lparr>wgraph = graph, wstack = [start], wresult = []\<rparr>))"
  by (simp add: findPath_def Let_def reverse_loop_rev)

lemma length_findPath:
  "length (findPath start graph)
     + edge_count (wgraph (findPath_loop \<lparr>wgraph = graph, wstack = [start], wresult = []\<rparr>))
   = edge_count graph + 1"
  using conservation_loop[of "\<lparr>wgraph = graph, wstack = [start], wresult = []\<rparr>"]
  by (simp add: findPath_rev)

section \<open>Independence of the visiting orders\<close>

lemma filter_singleton_order:
  assumes "distinct ks" "distinct ks'" "set ks = set ks'" "length (filter Q ks) = 1"
  shows "filter Q ks' = filter Q ks"
proof -
  have "length (filter Q ks') = card ({x. Q x} \<inter> set ks')"
    using assms(2) by (rule distinct_length_filter)
  also have "\<dots> = length (filter Q ks)"
    using distinct_length_filter[OF assms(1), of Q] assms(3) by simp
  finally have l: "length (filter Q ks') = 1" using assms(4) by simp
  from assms(4) obtain a where a: "filter Q ks = [a]"
    by (cases "filter Q ks") auto
  from l obtain b where b: "filter Q ks' = [b]"
    by (cases "filter Q ks'") auto
  have "set (filter Q ks) = set (filter Q ks')" using assms(3) by simp
  with a b show ?thesis by simp
qed

lemma length_filter_order:
  assumes "distinct ks" "distinct ks'" "set ks = set ks'"
  shows "length (filter Q ks') = length (filter Q ks)"
  using distinct_length_filter[OF assms(1), of Q] distinct_length_filter[OF assms(2), of Q] assms(3)
  by simp

lemma findStartingPoint_order:
  assumes "distinct ks" "distinct ks'" "set ks = set ks'"
  shows "findStartingPoint ks ks2 od idg = findStartingPoint ks' ks2' od idg"
proof (cases "length (filter (\<lambda>n. count_at od n - count_at idg n = 1) ks) = 1")
  case True
  from filter_singleton_order[OF assms True]
  show ?thesis unfolding findStartingPoint_char using assms(3) by simp
next
  case False
  with length_filter_order[OF assms, of "\<lambda>n. count_at od n - count_at idg n = 1"]
  show ?thesis unfolding findStartingPoint_char by simp
qed

lemma validateEndPoints_order:
  assumes "distinct ks" "distinct ks'" "set ks = set ks'"
  shows "validateEndPoints ks [start] od idg = validateEndPoints ks' [start] od idg"
  unfolding validateEndPoints_char
  using length_filter_order[OF assms, of "\<lambda>n. count_at idg n - count_at od n = 1"] assms(3)
  by simp

lemma buildGraph_insert_distinct_keys:
  "buildGraph_insert tickets ([], [], []) = Inr (g0, od, idg) \<Longrightarrow> distinct (map fst g0)"
  using buildGraph_insert_distinct[of tickets "[]" "[]" "[]" g0 od idg] by simp

lemma buildGraph_fair:
  assumes "\<forall>g. range_order (order g) g"
  shows "buildGraph order tickets =
     (case buildGraph_insert tickets ([], [], []) of
        Inl e \<Rightarrow> Inl e
      | Inr (g0, od, idg) \<Rightarrow> Inr (map (\<lambda>(k, ds). (k, sort_desc ds)) g0, od, idg))"
proof (cases "buildGraph_insert tickets ([], [], [])")
  case (Inl e)
  then show ?thesis by (simp add: buildGraph_def)
next
  case (Inr r)
  obtain g0 od idg where r: "r = (g0, od, idg)" by (cases r)
  from Inr r have d: "distinct (map fst g0)" by (simp add: buildGraph_insert_distinct_keys)
  from assms have "range_order (order g0) g0" by blast
  from buildGraph_sort_range[OF this d] Inr r show ?thesis
    by (simp add: buildGraph_def)
qed

lemma ReconstructItinerary_order:
  assumes "fair sch" "fair sch'"
  shows "ReconstructItinerary sch tickets = ReconstructItinerary sch' tickets"
proof -
  have g: "buildGraph (order_graph sch) tickets = buildGraph (order_graph sch') tickets"
    using assms by (simp add: buildGraph_fair fair_def)
  have s: "findStartingPoint (order_start sch od) (order_balanced sch od) od idg =
           findStartingPoint (order_start sch' od) (order_balanced sch' od) od idg" for od idg
    using assms by (intro findStartingPoint_order) (auto simp: fair_def range_order_def)
  have e: "validateEndPoints (order_end sch idg) [start] od idg =
           validateEndPoints (order_end sch' idg) [start] od idg" for od idg start
    using assms by (intro validateEndPoints_order) (auto simp: fair_def range_order_def)
  show ?thesis unfolding ReconstructItinerary_def g s e ..
qed

section \<open>Two fair schedules and a worked example\<close>

lemma range_order_insertion: "range_order (insertion_order m) m"
  by (simp add: range_order_def insertion_order_def keys_def)

lemma range_order_rev_insertion: "range_order (rev (insertion_order m)) m"
  by (simp add: range_order_def insertion_order_def keys_def)

lemma fair_forward: "fair forward"
  by (simp add: fair_def forward_def range_order_insertion)

lemma fair_backward: "fair backward"
  by (simp add: fair_def backward_def range_order_rev_insertion)

lemma example_forward:
  "ReconstructItinerary forward
     [[''JFK'', ''SFO''], [''JFK'', ''ATL''], [''SFO'', ''ATL''], [''ATL'', ''JFK'']]
   = Inr [''JFK'', ''ATL'', ''JFK'', ''SFO'', ''ATL'']"
  by code_simp

section \<open>The outcome of a call\<close>

lemma findStartingPoint_error:
  "findStartingPoint ks1 ks2 od idg = Inl e \<Longrightarrow> e = ErrDifferentStartingPoints"
  by (simp add: findStartingPoint_char split: if_splits)

lemma validateEndPoints_error:
  "validateEndPoints ks [start] od idg = Some e \<Longrightarrow> e = ErrDifferentStartingPoints"
  by (simp add: validateEndPoints_char split: if_splits)

lemma buildGraph_well_formed:
  assumes "well_formed tickets"
  shows "\<exists>g od idg. buildGraph order tickets = Inr (g, od, idg)"
proof -
  from buildGraph_insert_Inr[OF assms, of "[]" "[]" "[]"]
  obtain g0 od idg where "buildGraph_insert tickets ([], [], []) = Inr (g0, od, idg)" by blast
  then show ?thesis by (simp add: buildGraph_def)
qed

text \<open>What a call returns once the validator has accepted the tickets.\<close>

lemma ReconstructItinerary_validated:
  assumes "tickets \<noteq> []" "validateTickets tickets = Inr tc"
    "buildGraph (order_graph sch) tickets = Inr (g, od, idg)"
  shows "ReconstructItinerary sch tickets =
     (case findStartingPoint (order_start sch od) (order_balanced sch od) od idg of
        Inl e \<Rightarrow> Inl ErrDifferentStartingPoints
      | Inr start \<Rightarrow>
          (case validateEndPoints (order_end sch idg) [start] od idg of
             Some e \<Rightarrow> Inl ErrDifferentStartingPoints
           | None \<Rightarrow>
               if length (findPath start g) \<ge> 2 \<and> hd (findPath start g) = last (findPath start g)
               then Inl ErrCycleInItinerary else Inr (findPath start g)))"
proof -
  have hl: "length xs \<ge> 2 \<Longrightarrow> xs ! 0 = hd xs \<and> xs ! (length xs - 1) = last xs" for xs :: "string list"
    by (cases xs) (auto simp: last_conv_nth)
  show ?thesis
    using assms hl[of "findPath _ g"]
    by (auto simp: ReconstructItinerary_def Let_def split: sum.splits option.splits
        dest: findStartingPoint_error validateEndPoints_error)
qed

lemma ReconstructItinerary_not_duplicate:
  assumes "well_formed tickets" "distinct (map ticket_key tickets)"
  shows "ReconstructItinerary sch tickets \<noteq> Inl ErrMultipleSameDestination"
    and "ReconstructItinerary sch tickets \<noteq> Inl PanicIndexOutOfRange"
proof -
  from validateTickets_char[OF assms(1)] assms(2)
  obtain tc where v: "validateTickets tickets = Inr tc" by auto
  from buildGraph_well_formed[OF assms(1)]
  obtain g od idg where b: "buildGraph (order_graph sch) tickets = Inr (g, od, idg)" by blast
  show "ReconstructItinerary sch tickets \<noteq> Inl ErrMultipleSameDestination"
  proof (cases "tickets = []")
    case True
    then show ?thesis by (simp add: ReconstructItinerary_def)
  next
    case False
    show ?thesis unfolding ReconstructItinerary_validated[OF False v b]
      by (simp split: sum.splits option.splits)
  qed
  show "ReconstructItinerary sch tickets \<noteq> Inl PanicIndexOutOfRange"
  proof (cases "tickets = []")
    case True
    then show ?thesis by (simp add: ReconstructItinerary_def)
  next
    case False
    show ?thesis unfolding ReconstructItinerary_validated[OF False v b]
      by (simp split: sum.splits option.splits)
  qed
qed

lemma ReconstructItinerary_duplicate:
  assumes "well_formed tickets" "\<not> distinct (map ticket_key tickets)"
  shows "ReconstructItinerary sch tickets = Inl ErrMultipleSameDestination"
proof -
  from validateTickets_char[OF assms(1)] assms(2)
  have v: "validateTickets tickets = Inl ErrMultipleSameDestination" by auto
  from assms(2) have "tickets \<noteq> []" by auto
  with v show ?thesis by (simp add: ReconstructItinerary_def)
qed

lemma findPath_single: "A \<noteq> B \<Longrightarrow> findPath A [(A, [B])] = [A, B]"
  unfolding findPath_rev
  apply (subst findPath_loop.simps, simp add: findPath_step_def)
  apply (subst findPath_loop.simps, simp add: findPath_step_def)
  apply (subst findPath_loop.simps, simp add: findPath_step_def)
  apply (subst findPath_loop.simps, simp add: findPath_step_def)
  done

lemma ReconstructItinerary_single_forward:
  assumes "A \<noteq> B"
  shows "ReconstructItinerary forward [[A, B]] = Inr [A, B]"
proof -
  have v: "validateTickets [[A, B]] = Inr [((A, B), 1)]"
    by (simp add: validateTickets_def incr_def count_at_def)
  have b: "buildGraph (order_graph forward) [[A, B]] = Inr ([(A, [B])], [(A, 1)], [(B, 1)])"
    by (simp add: buildGraph_def forward_def insertion_order_def incr_def count_at_def adj_def
        sort_desc_def)
  have s: "findStartingPoint (order_start forward [(A, 1)]) (order_balanced forward [(A, 1)])
         [(A, 1)] [(B, 1)] = Inr A"
    using assms by (simp add: findStartingPoint_def forward_def insertion_order_def count_at_def)
  have e: "validateEndPoints (order_end forward [(B, 1)]) [A] [(A, 1)] [(B, 1)] = None"
    using assms by (simp add: validateEndPoints_def forward_def insertion_order_def count_at_def)
  have "[[A, B]] \<noteq> []" by simp
  from ReconstructItinerary_validated[OF this v b] show ?thesis
    using assms by (simp add: s e findPath_single)
qed

section \<open>Degrees of a ticket list\<close>

lemma out_degree_nonneg: "out_degree tickets n \<ge> 0"
  by (simp add: out_degree_def)

lemma in_degree_nonneg: "in_degree tickets n \<ge> 0"
  by (simp add: in_degree_def)

lemma out_degree_zero: "out_degree tickets n = 0 \<longleftrightarrow> n \<notin> (\<lambda>t. t ! 0) ` set tickets"
  by (auto simp: out_degree_def filter_empty_conv)

lemma in_degree_zero: "in_degree tickets n = 0 \<longleftrightarrow> n \<notin> (\<lambda>t. t ! 1) ` set tickets"
  by (auto simp: in_degree_def filter_empty_conv)

text \<open>The tables that \<open>buildGraph\<close> returns are the degrees of the ticket list.\<close>

lemma buildGraph_tables:
  assumes "buildGraph order tickets = Inr (g, od, idg)"
  shows "count_at od n = out_degree tickets n"
    and "count_at idg n = in_degree tickets n"
    and "keys od = (\<lambda>t. t ! 0) ` set tickets"
    and "keys idg = (\<lambda>t. t ! 1) ` set tickets"
proof -
  from assms obtain g0 where b: "buildGraph_insert tickets ([], [], []) = Inr (g0, od, idg)"
    by (auto simp: buildGraph_def split: sum.splits)
  show "count_at od n = out_degree tickets n"
    using buildGraph_insert_out[OF b, of n] by (simp add: count_at_Nil)
  show "count_at idg n = in_degree tickets n"
    using buildGraph_insert_in[OF b, of n] by (simp add: count_at_Nil)
  show "keys od = (\<lambda>t. t ! 0) ` set tickets" "keys idg = (\<lambda>t. t ! 1) ` set tickets"
    using buildGraph_insert_keys[OF b] by (simp_all add: keys_def)
qed

lemma start_candidates_card:
  assumes "distinct ks" "set ks = (\<lambda>t. t ! 0) ` set tickets"
  shows "length (filter (\<lambda>n. out_degree tickets n - in_degree tickets n = 1) ks)
         = card {n. out_degree tickets n - in_degree tickets n = 1}"
proof -
  have "{n. out_degree tickets n - in_degree tickets n = 1} \<subseteq> set ks"
  proof
    fix n assume "n \<in> {n. out_degree tickets n - in_degree tickets n = 1}"
    then have "out_degree tickets n \<noteq> 0" using in_degree_nonneg[of tickets n] by auto
    then show "n \<in> set ks" unfolding assms(2) by (simp add: out_degree_zero)
  qed
  then have "{n. out_degree tickets n - in_degree tickets n = 1} \<inter> set ks
     = {n. out_degree tickets n - in_degree tickets n = 1}" by blast
  with distinct_length_filter[OF assms(1), of "\<lambda>n. out_degree tickets n - in_degree tickets n = 1"]
  show ?thesis by simp
qed

lemma end_candidates_card:
  assumes "distinct ks" "set ks = (\<lambda>t. t ! 1) ` set tickets"
  shows "length (filter (\<lambda>n. in_degree tickets n - out_degree tickets n = 1) ks)
         = card {n. in_degree tickets n - out_degree tickets n = 1}"
proof -
  have "{n. in_degree tickets n - out_degree tickets n = 1} \<subseteq> set ks"
  proof
    fix n assume "n \<in> {n. in_degree tickets n - out_degree tickets n = 1}"
    then have "in_degree tickets n \<noteq> 0" using out_degree_nonneg[of tickets n] by auto
    then show "n \<in> set ks" unfolding assms(2) by (simp add: in_degree_zero)
  qed
  then have "{n. in_degree tickets n - out_degree tickets n = 1} \<inter> set ks
     = {n. in_degree tickets n - out_degree tickets n = 1}" by blast
  with distinct_length_filter[OF assms(1), of "\<lambda>n. in_degree tickets n - out_degree tickets n = 1"]
  show ?thesis by simp
qed

lemma imbalance_everywhere:
  "(\<forall>n \<in> (\<lambda>t. t ! 0) ` set tickets. \<bar>out_degree tickets n - in_degree tickets n\<bar> \<le> 1)
   \<and> (\<forall>n \<in> (\<lambda>t. t ! 1) ` set tickets. \<bar>in_degree tickets n - out_degree tickets n\<bar> \<le> 1)
   \<longleftrightarrow> (\<forall>n. \<bar>out_degree tickets n - in_degree tickets n\<bar> \<le> 1)"
proof
  assume a: "(\<forall>n \<in> (\<lambda>t. t ! 0) ` set tickets. \<bar>out_degree tickets n - in_degree tickets n\<bar> \<le> 1)
   \<and> (\<forall>n \<in> (\<lambda>t. t ! 1) ` set tickets. \<bar>in_degree tickets n - out_degree tickets n\<bar> \<le> 1)"
  show "\<forall>n. \<bar>out_degree tickets n - in_degree tickets n\<bar> \<le> 1"
  proof
    fix n
    consider "n \<in> (\<lambda>t. t ! 0) ` set tickets" | "n \<in> (\<lambda>t. t ! 1) ` set tickets"
      | "n \<notin> (\<lambda>t. t ! 0) ` set tickets" "n \<notin> (\<lambda>t. t ! 1) ` set tickets" by blast
    then show "\<bar>out_degree tickets n - in_degree tickets n\<bar> \<le> 1"
    proof cases
      case 1
      with a show ?thesis by blast
    next
      case 2
      with a have "\<bar>in_degree tickets n - out_degree tickets n\<bar> \<le> 1" by blast
      then show ?thesis by linarith
    next
      case 3
      then have "out_degree tickets n = 0" "in_degree tickets n = 0"
        by (simp_all add: out_degree_zero in_degree_zero)
      then show ?thesis by simp
    qed
  qed
next
  assume a: "\<forall>n. \<bar>out_degree tickets n - in_degree tickets n\<bar> \<le> 1"
  have "\<bar>in_degree tickets n - out_degree tickets n\<bar> \<le> 1" for n
    using a[rule_format, of n] by linarith
  with a show "(\<forall>n \<in> (\<lambda>t. t ! 0) ` set tickets. \<bar>out_degree tickets n - in_degree tickets n\<bar> \<le> 1)
   \<and> (\<forall>n \<in> (\<lambda>t. t ! 1) ` set tickets. \<bar>in_degree tickets n - out_degree tickets n\<bar> \<le> 1)"
    by blast
qed

lemma resolver_char:
  assumes "fair sch" "buildGraph (order_graph sch) tickets = Inr (g, od, idg)"
  shows "(\<exists>start. findStartingPoint (order_start sch od) (order_balanced sch od) od idg = Inr start
            \<and> validateEndPoints (order_end sch idg) [start] od idg = None)
         \<longleftrightarrow> endpoints_ok tickets"
proof -
  note t = buildGraph_tables[OF assms(2)]
  from assms(1) have ro: "range_order (order_start sch od) od" "range_order (order_end sch idg) idg"
    by (auto simp: fair_def)
  then have ds: "distinct (order_start sch od)" and ss: "set (order_start sch od) = (\<lambda>t. t ! 0) ` set tickets"
    and de: "distinct (order_end sch idg)" and se: "set (order_end sch idg) = (\<lambda>t. t ! 1) ` set tickets"
    by (auto simp: range_order_def t)
  have cod: "count_at od = out_degree tickets" and cid: "count_at idg = in_degree tickets"
    using t(1,2) by auto
  define A where "A \<longleftrightarrow> (\<forall>n \<in> (\<lambda>t. t ! 0) ` set tickets. \<bar>out_degree tickets n - in_degree tickets n\<bar> \<le> 1)"
  define B where "B \<longleftrightarrow> (\<forall>n \<in> (\<lambda>t. t ! 1) ` set tickets. \<bar>in_degree tickets n - out_degree tickets n\<bar> \<le> 1)"
  define C where "C \<longleftrightarrow> (\<forall>n. \<bar>out_degree tickets n - in_degree tickets n\<bar> \<le> 1)"
  define cs where "cs = card {n. out_degree tickets n - in_degree tickets n = 1}"
  define ce where "ce = card {n. in_degree tickets n - out_degree tickets n = 1}"
  define f where "f = findStartingPoint (order_start sch od) (order_balanced sch od) od idg"
  define v where "v = (\<lambda>start. validateEndPoints (order_end sch idg) [start] od idg)"
  have f: "f = (if A \<and> cs = 1
       then Inr (hd (filter (\<lambda>n. out_degree tickets n - in_degree tickets n = 1) (order_start sch od)))
       else Inl ErrDifferentStartingPoints)"
    unfolding f_def A_def cs_def findStartingPoint_char cod cid start_candidates_card[OF ds ss] ss ..
  have v: "v start = (if B \<and> ce = 1 then None else Some ErrDifferentStartingPoints)" for start
    unfolding v_def B_def ce_def validateEndPoints_char cod cid end_candidates_card[OF de se] se ..
  have I: "A \<and> B \<longleftrightarrow> C"
    unfolding A_def B_def C_def by (rule imbalance_everywhere)
  have "(\<exists>start. f = Inr start \<and> v start = None) \<longleftrightarrow> cs = 1 \<and> C \<and> ce = 1"
    unfolding f v I[symmetric] by (simp split: if_splits) blast
  then show ?thesis
    unfolding endpoints_ok_def f_def v_def C_def cs_def ce_def .
qed

section \<open>What the walk visits and consumes\<close>

lemma findPath_step_cases:
  assumes "wstack w \<noteq> []"
  obtains (push) dests where
      "adj (wgraph w) (last (wstack w)) = dests" "dests \<noteq> []"
      "\<And>u. adj (wgraph (findPath_step w)) u
            = (if u = last (wstack w) then butlast dests else adj (wgraph w) u)"
      "wstack (findPath_step w) = wstack w @ [last dests]"
      "wresult (findPath_step w) = wresult w"
      "distinct (map fst (wgraph w)) \<Longrightarrow> distinct (map fst (wgraph (findPath_step w)))"
      "edge_count (wgraph (findPath_step w)) + 1 = edge_count (wgraph w)"
  | (pop)
      "adj (wgraph w) (last (wstack w)) = []"
      "wgraph (findPath_step w) = wgraph w"
      "wstack (findPath_step w) = butlast (wstack w)"
      "wresult (findPath_step w) = wresult w @ [last (wstack w)]"
proof (cases "map_of (wgraph w) (last (wstack w))")
  case None
  then have "adj (wgraph w) (last (wstack w)) = []" by (simp add: adj_def)
  with pop_step[of w] None pop show ?thesis by simp
next
  case (Some dests)
  show ?thesis
  proof (cases "dests = []")
    case True
    with Some have "adj (wgraph w) (last (wstack w)) = []" by (simp add: adj_def)
    with pop_step[of w] Some True pop show ?thesis by simp
  next
    case False
    note s = edge_count_step[OF Some False]
    have "adj (wgraph w) (last (wstack w)) = dests" using Some by (simp add: adj_def)
    moreover have "adj (wgraph (findPath_step w)) u
            = (if u = last (wstack w) then butlast dests else adj (wgraph w) u)" for u
      unfolding s(1) by (simp add: adj_update)
    moreover have "distinct (map fst (wgraph w)) \<Longrightarrow> distinct (map fst (wgraph (findPath_step w)))"
      unfolding s(1) by (simp add: distinct_update)
    ultimately show ?thesis using push[of dests] False s(2,3,4) by blast
  qed
qed

lemma walk_inv_init:
  "distinct (map fst g0) \<Longrightarrow> walk_inv g0 s \<lparr>wgraph = g0, wstack = [s], wresult = []\<rparr>"
  by (simp add: walk_inv_def)

lemma walk_inv_step:
  assumes inv: "walk_inv g0 s w" and ne: "wstack w \<noteq> []"
  shows "walk_inv g0 s (findPath_step w)"
proof -
  let ?V = "set (wstack w) \<union> set (wresult w)"
  let ?w' = "findPath_step w"
  let ?V' = "set (wstack ?w') \<union> set (wresult ?w')"
  let ?top = "last (wstack w)"
  from inv have i1: "\<And>u. \<exists>ys. adj g0 u = adj (wgraph w) u @ ys \<and> set ys \<subseteq> ?V \<and> (ys \<noteq> [] \<longrightarrow> u \<in> ?V)"
    and i2: "\<And>u. u \<in> set (wresult w) \<Longrightarrow> adj (wgraph w) u = []"
    and i3: "?V \<subseteq> (edges_of g0)\<^sup>* `` {s}"
    and i4: "hd (wstack w) = s"
    and i5: "distinct (map fst (wgraph w))"
    using ne unfolding walk_inv_def by auto
  have top: "?top \<in> set (wstack w)" using ne by simp
  from ne show ?thesis
  proof (cases rule: findPath_step_cases)
    case (push dests)
    have V': "?V' = insert (last dests) ?V" unfolding push by auto
    have c1: "\<exists>ys. adj g0 u = adj (wgraph ?w') u @ ys \<and> set ys \<subseteq> ?V' \<and> (ys \<noteq> [] \<longrightarrow> u \<in> ?V')" for u
    proof (cases "u = ?top")
      case True
      from i1[of ?top] obtain ys where ys: "adj g0 ?top = dests @ ys" "set ys \<subseteq> ?V"
        unfolding push(1) by blast
      have "adj g0 u = butlast dests @ (last dests # ys)"
        using ys(1) push(2) True by simp
      moreover have "set (last dests # ys) \<subseteq> ?V'" using ys(2) V' by auto
      moreover have "u \<in> ?V'" using True top V' by blast
      ultimately show ?thesis unfolding push(3) using True by (intro exI[of _ "last dests # ys"]) simp
    next
      case False
      from i1[of u] obtain ys where "adj g0 u = adj (wgraph w) u @ ys" "set ys \<subseteq> ?V" "ys \<noteq> [] \<longrightarrow> u \<in> ?V"
        by blast
      then show ?thesis unfolding push(3) V' using False by (intro exI[of _ ys]) auto
    qed
    have c2: "adj (wgraph ?w') u = []" if "u \<in> set (wresult ?w')" for u
      using that i2[of u] push by auto
    have "(?top, last dests) \<in> edges_of g0"
    proof -
      from i1[of ?top] obtain ys where "adj g0 ?top = dests @ ys" unfolding push(1) by blast
      then have "last dests \<in> set (adj g0 ?top)" using push(2) by simp
      then show ?thesis by (simp add: edges_of_def)
    qed
    moreover have "?top \<in> (edges_of g0)\<^sup>* `` {s}" using i3 top by blast
    ultimately have "last dests \<in> (edges_of g0)\<^sup>* `` {s}"
      by (auto intro: rtrancl_into_rtrancl)
    with i3 have c3: "?V' \<subseteq> (edges_of g0)\<^sup>* `` {s}" unfolding V' by blast
    have c4: "wstack ?w' \<noteq> [] \<and> hd (wstack ?w') = s" using ne i4 unfolding push by simp
    have c5: "distinct (map fst (wgraph ?w'))" using push(6) i5 by simp
    show ?thesis unfolding walk_inv_def using c1 c2 c3 c4 c5 by simp
  next
    case pop
    have "set (wstack w) = insert ?top (set (butlast (wstack w)))"
      using ne by (metis append_butlast_last_id list.simps(15) rotate1.simps(2) set_rotate1)
    then have V': "?V' = ?V" unfolding pop by auto
    have c1: "\<exists>ys. adj g0 u = adj (wgraph ?w') u @ ys \<and> set ys \<subseteq> ?V' \<and> (ys \<noteq> [] \<longrightarrow> u \<in> ?V')" for u
      unfolding V' pop(2) by (rule i1)
    have c2: "adj (wgraph ?w') u = []" if "u \<in> set (wresult ?w')" for u
      using that i2[of u] pop by auto
    have c3: "?V' \<subseteq> (edges_of g0)\<^sup>* `` {s}" unfolding V' by (rule i3)
    have c4: "if wstack ?w' = [] then wresult ?w' \<noteq> [] \<and> last (wresult ?w') = s else hd (wstack ?w') = s"
    proof (cases "butlast (wstack w) = []")
      case True
      then have "wstack w = [?top]" using ne by (metis append_butlast_last_id append_Nil)
      then have "?top = s" using i4 by (metis list.sel(1))
      then show ?thesis unfolding pop using True by simp
    next
      case False
      then have "hd (butlast (wstack w)) = hd (wstack w)"
        by (metis append_butlast_last_id hd_append2 ne)
      then show ?thesis unfolding pop using False i4 by simp
    qed
    have c5: "distinct (map fst (wgraph ?w'))" unfolding pop(2) by (rule i5)
    show ?thesis unfolding walk_inv_def using c1 c2 c3 c4 c5 by simp
  qed
qed

lemma walk_inv_final:
  assumes "distinct (map fst g0)"
  shows "walk_inv g0 s (findPath_loop \<lparr>wgraph = g0, wstack = [s], wresult = []\<rparr>)
         \<and> wstack (findPath_loop \<lparr>wgraph = g0, wstack = [s], wresult = []\<rparr>) = []"
  by (rule findPath_loop_rule[where P = "walk_inv g0 s"])
     (simp_all add: walk_inv_init[OF assms] walk_inv_step)


text \<open>What the walk leaves behind: the edges out of the nodes it cannot reach.\<close>

lemma walk_final:
  fixes g0 :: graph and s :: string
  assumes d: "distinct (map fst g0)"
  defines "fin \<equiv> findPath_loop \<lparr>wgraph = g0, wstack = [s], wresult = []\<rparr>"
  shows "set (wresult fin) = (edges_of g0)\<^sup>* `` {s}"
    and "adj (wgraph fin) u = (if u \<in> (edges_of g0)\<^sup>* `` {s} then [] else adj g0 u)"
    and "wresult fin \<noteq> []" and "last (wresult fin) = s"
    and "distinct (map fst (wgraph fin))"
proof -
  let ?V = "set (wresult fin)"
  from walk_inv_final[OF d, of s] have inv: "walk_inv g0 s fin" and e: "wstack fin = []"
    unfolding fin_def by blast+
  from inv e have i1: "\<And>u. \<exists>ys. adj g0 u = adj (wgraph fin) u @ ys \<and> set ys \<subseteq> ?V \<and> (ys \<noteq> [] \<longrightarrow> u \<in> ?V)"
    and i2: "\<And>u. u \<in> ?V \<Longrightarrow> adj (wgraph fin) u = []"
    and i3: "?V \<subseteq> (edges_of g0)\<^sup>* `` {s}"
    and i4: "wresult fin \<noteq> []" "last (wresult fin) = s"
    and i5: "distinct (map fst (wgraph fin))"
    unfolding walk_inv_def by auto
  show "wresult fin \<noteq> []" "last (wresult fin) = s" "distinct (map fst (wgraph fin))"
    by (rule i4 i5)+
  have sV: "s \<in> ?V" using i4 last_in_set by blast
  have closed: "v \<in> ?V" if "u \<in> ?V" "(u, v) \<in> edges_of g0" for u v
  proof -
    from i1[of u] i2[OF that(1)] obtain ys where "adj g0 u = ys" "set ys \<subseteq> ?V" by auto
    with that(2) show ?thesis by (auto simp: edges_of_def)
  qed
  have "v \<in> ?V" if "(s, v) \<in> (edges_of g0)\<^sup>*" for v
    using that by (induction rule: rtrancl_induct) (auto intro: sV closed)
  with i3 show V: "?V = (edges_of g0)\<^sup>* `` {s}" by blast
  show "adj (wgraph fin) u = (if u \<in> (edges_of g0)\<^sup>* `` {s} then [] else adj g0 u)"
  proof (cases "u \<in> ?V")
    case True
    with i2 V show ?thesis by simp
  next
    case False
    from i1[of u] False obtain ys where "adj g0 u = adj (wgraph fin) u @ ys" "ys = []" by blast
    with False V show ?thesis by simp
  qed
qed

lemma findPath_hd:
  assumes "distinct (map fst g0)"
  shows "findPath s g0 \<noteq> []" and "hd (findPath s g0) = s"
  using walk_final(3,4)[OF assms, of s] by (simp_all add: findPath_rev hd_rev)



text \<open>The graph of a ticket list.\<close>

lemma edge_count_update_absent:
  "map_of g k = None \<Longrightarrow> edge_count (AList.update k ds g) = edge_count g + length ds"
  by (induction g) (auto simp: edge_count_def split: if_splits)

lemma edge_count_append:
  "edge_count (AList.update k (adj g k @ [d]) g) = edge_count g + 1"
proof (cases "map_of g k")
  case None
  then show ?thesis by (simp add: edge_count_update_absent adj_def)
next
  case (Some ds)
  from edge_count_update[OF Some, of "ds @ [d]"] Some show ?thesis by (simp add: adj_def)
qed

lemma buildGraph_insert_edge_count:
  "buildGraph_insert ts (g, od, idg) = Inr (g', od', id') \<Longrightarrow>
   edge_count g' = edge_count g + length ts"
proof (induction ts arbitrary: g od idg)
  case Nil
  then show ?case by simp
next
  case (Cons t ts)
  from Cons.IH[OF buildGraph_insert_Cons[OF Cons.prems]] show ?case
    by (simp add: edge_count_append)
qed

lemma adj_map: "f [] = [] \<Longrightarrow> adj (map (\<lambda>(k, ds). (k, f ds)) g) u = f (adj g u)"
  by (induction g) (auto simp: adj_def)

lemma edge_count_map:
  "(\<And>ds. length (f ds) = length ds) \<Longrightarrow> edge_count (map (\<lambda>(k, ds). (k, f ds)) g) = edge_count g"
  by (induction g) (auto simp: edge_count_def)

lemma buildGraph_graph:
  assumes "\<forall>g. range_order (order g) g" "buildGraph order tickets = Inr (g, od, idg)"
  shows "adj g u = sort_desc (map (\<lambda>t. t ! 1) (filter (\<lambda>t. t ! 0 = u) tickets))"
    and "edge_count g = length tickets"
    and "distinct (map fst g)"
    and "edges_of g = {(t ! 0, t ! 1) |t. t \<in> set tickets}"
proof -
  from assms(2) obtain g0 where b: "buildGraph_insert tickets ([], [], []) = Inr (g0, od, idg)"
    by (auto simp: buildGraph_def split: sum.splits)
  with assms have g: "g = map (\<lambda>(k, ds). (k, sort_desc ds)) g0"
    by (simp add: buildGraph_fair)
  show a: "adj g u = sort_desc (map (\<lambda>t. t ! 1) (filter (\<lambda>t. t ! 0 = u) tickets))" for u
  proof -
    have "sort_desc [] = []" by (simp add: sort_desc_def)
    from adj_map[of sort_desc g0 u, OF this] buildGraph_insert_adj[OF b, of u]
    show ?thesis unfolding g by (simp add: adj_def)
  qed
  show "edge_count g = length tickets"
  proof -
    have "length (sort_desc ds) = length ds" for ds by (simp add: sort_desc_def)
    from edge_count_map[of sort_desc g0, OF this] buildGraph_insert_edge_count[OF b]
    show ?thesis unfolding g by (simp add: edge_count_def)
  qed
  show "distinct (map fst g)"
    unfolding g using buildGraph_insert_distinct_keys[OF b]
    by (simp add: case_prod_unfold comp_def)
  show "edges_of g = {(t ! 0, t ! 1) |t. t \<in> set tickets}"
    unfolding edges_of_def a by (auto simp: sort_desc_def)
qed

lemma validateTickets_loop_Inr:
  "validateTickets_loop ts tc = Inr tc' \<Longrightarrow> well_formed ts"
proof (induction ts arbitrary: tc)
  case Nil
  then show ?case by (simp add: well_formed_def)
next
  case (Cons t ts)
  from Cons.prems have len: "length t \<ge> 2" by (auto split: if_splits)
  from Cons.prems len have "validateTickets_loop ts (incr tc (t ! 0, t ! 1)) = Inr tc'"
    by (simp add: Let_def split: if_splits)
  from Cons.IH[OF this] len show ?case by (simp add: well_formed_Cons)
qed

lemma validateTickets_Inr:
  assumes "validateTickets tickets = Inr tc"
  shows "well_formed tickets" and "distinct (map ticket_key tickets)"
proof -
  show w: "well_formed tickets"
    using assms validateTickets_loop_Inr by (simp add: validateTickets_def)
  from validateTickets_char[OF w] assms show "distinct (map ticket_key tickets)"
    by (auto split: if_splits)
qed

text \<open>A successful call ran the walk from a start node on the graph of the tickets.\<close>

lemma ReconstructItinerary_Inr:
  assumes "ReconstructItinerary sch tickets = Inr itinerary" "tickets \<noteq> []"
  obtains tc g od idg start where
    "validateTickets tickets = Inr tc"
    "buildGraph (order_graph sch) tickets = Inr (g, od, idg)"
    "findStartingPoint (order_start sch od) (order_balanced sch od) od idg = Inr start"
    "validateEndPoints (order_end sch idg) [start] od idg = None"
    "itinerary = findPath start g"
  using assms
  by (auto simp: ReconstructItinerary_def Let_def split: sum.splits option.splits if_splits)

lemma ticket_edges: "{(t ! 0, t ! 1) |t. t \<in> set tickets} = ticket_key ` set tickets"
  by (auto simp: ticket_key_def)

section \<open>The order of the adjacency lists\<close>

lemma last_descending:
  assumes "sorted (rev ds)" "ds \<noteq> []"
  shows "last ds = Min (set ds)"
proof -
  have "last ds \<in> set ds" using assms(2) by simp
  moreover have "last ds \<le> x" if "x \<in> set ds" for x
  proof -
    from assms(2) obtain bs where ds: "ds = bs @ [last ds]"
      by (metis append_butlast_last_id)
    then have "rev ds = last ds # rev bs" by (metis rev.simps(2) rev_rev_ident rev_swap)
    with assms(1) have "\<forall>y \<in> set (rev bs). last ds \<le> y" by simp
    with that ds show ?thesis by (metis Un_iff insert_iff list.set(2) order_refl set_append set_rev empty_set empty_iff)
  qed
  ultimately show ?thesis by (simp add: Min_eqI[symmetric])
qed

lemma descending_step: "descending (wgraph w) \<Longrightarrow> descending (wgraph (findPath_step w))"
proof -
  assume d: "descending (wgraph w)"
  have b: "sorted (rev (butlast ds))" if "sorted (rev ds)" for ds :: "string list"
  proof (cases ds rule: rev_cases)
    case Nil then show ?thesis by simp
  next
    case (snoc bs b) with that show ?thesis by simp
  qed
  show ?thesis
  proof (cases "map_of (wgraph w) (last (wstack w))")
    case None
    with d show ?thesis by (simp add: findPath_step_def)
  next
    case (Some dests)
    then have "adj (wgraph w) (last (wstack w)) = dests" by (simp add: adj_def)
    with d have "sorted (rev dests)" unfolding descending_def by metis
    from b[OF this] d Some show ?thesis
      by (auto simp: findPath_step_def descending_def adj_update Let_def)
  qed
qed

lemma descending_funpow:
  "descending (wgraph w) \<Longrightarrow> descending (wgraph ((findPath_step ^^ n) w))"
  by (induction n) (simp_all add: descending_step)

lemma buildGraph_descending:
  assumes "\<forall>g. range_order (order g) g" "buildGraph order tickets = Inr (g, od, idg)"
  shows "descending g"
  unfolding descending_def buildGraph_graph(1)[OF assms] by (simp add: sort_desc_def)

section \<open>The walk takes the smallest destination first\<close>

text \<open>At every iteration in which the node on top of the stack has edges left, the
  walk moves to the smallest of its remaining destinations.\<close>

lemma walk_takes_smallest:
  assumes "fair sch"
    and "buildGraph (order_graph sch) tickets = Inr (graph, outDegree, inDegree)"
    and "w = (findPath_step ^^ n) \<lparr>wgraph = graph, wstack = [start], wresult = []\<rparr>"
    and "wstack w \<noteq> []"
    and "adj (wgraph w) (last (wstack w)) \<noteq> []"
  shows "wstack (findPath_step w)
           = wstack w @ [Min (set (adj (wgraph w) (last (wstack w))))]
         \<and> adj (wgraph (findPath_step w)) (last (wstack w))
           = butlast (adj (wgraph w) (last (wstack w)))"
proof -
  from assms(1) have o: "\<forall>g. range_order (order_graph sch g) g" by (simp add: fair_def)
  have "descending (wgraph w)"
    unfolding assms(3) by (rule descending_funpow) (simp add: buildGraph_descending[OF o assms(2)])
  then have s: "sorted (rev (adj (wgraph w) (last (wstack w))))" by (simp add: descending_def)
  from assms(4) show ?thesis
  proof (cases rule: findPath_step_cases)
    case (push dests)
    with last_descending[OF s assms(5)] show ?thesis by simp
  next
    case pop
    with assms(5) show ?thesis by simp
  qed
qed

section \<open>Sequences of stops and trails\<close>

lemma steps_simps:
  "steps [] = []" "steps [x] = []" "steps (x # y # zs) = (x, y) # steps (y # zs)"
  by (simp_all add: steps_def)

lemma steps_Cons: "q \<noteq> [] \<Longrightarrow> steps (x # q) = (x, hd q) # steps q"
  by (cases q) (simp_all add: steps_simps)

lemma steps_append:
  "xs \<noteq> [] \<Longrightarrow> ys \<noteq> [] \<Longrightarrow> steps (xs @ ys) = steps xs @ (last xs, hd ys) # steps ys"
proof (induction xs)
  case Nil
  then show ?case by simp
next
  case (Cons x xs)
  show ?case
  proof (cases "xs = []")
    case True
    with Cons.prems show ?thesis by (simp add: steps_Cons steps_simps)
  next
    case False
    with Cons show ?thesis by (simp add: steps_Cons)
  qed
qed

lemma steps_join: "steps (xs @ m # ys) = steps (xs @ [m]) @ steps (m # ys)"
proof (cases "ys = []")
  case True
  then show ?thesis by (simp add: steps_simps)
next
  case False
  have "steps (xs @ m # ys) = steps ((xs @ [m]) @ ys)" by simp
  also have "\<dots> = steps (xs @ [m]) @ (m, hd ys) # steps ys"
    using False by (subst steps_append) simp_all
  also have "\<dots> = steps (xs @ [m]) @ steps (m # ys)"
    using False by (simp add: steps_Cons)
  finally show ?thesis .
qed

lemma length_steps: "length (steps q) = length q - 1"
  by (simp add: steps_def)

lemma steps_empty: "steps q = [] \<longleftrightarrow> length q \<le> 1"
  by (cases q; cases "tl q") (auto simp: steps_def)

lemma steps_nodes:
  "(x, y) \<in> set (steps q) \<Longrightarrow> x \<in> set q \<and> y \<in> set q"
  unfolding steps_def by (metis in_set_zipE list.set_sel(2) tl_Nil empty_iff empty_set)

lemma steps_split:
  "(u, v) \<in> set (steps q) \<Longrightarrow>
   \<exists>A B. q = A @ B \<and> A \<noteq> [] \<and> B \<noteq> [] \<and> last A = u \<and> hd B = v"
proof (induction q)
  case Nil
  then show ?case by (simp add: steps_simps)
next
  case (Cons x q)
  then have ne: "q \<noteq> []" by (auto simp: steps_simps)
  show ?case
  proof (cases "(u, v) = (x, hd q)")
    case True
    then have "x # q = [x] @ q \<and> [x] \<noteq> [] \<and> q \<noteq> [] \<and> last [x] = u \<and> hd q = v"
      using ne by simp
    then show ?thesis by blast
  next
    case False
    with Cons.prems ne have "(u, v) \<in> set (steps q)" by (auto simp: steps_Cons)
    from Cons.IH[OF this] obtain A B where "q = A @ B" "A \<noteq> []" "B \<noteq> []" "last A = u" "hd B = v"
      by blast
    then have "x # q = (x # A) @ B \<and> x # A \<noteq> [] \<and> B \<noteq> [] \<and> last (x # A) = u \<and> hd B = v"
      by simp
    then show ?thesis by blast
  qed
qed

text \<open>A sequence of stops whose steps are edges is a path in the graph.\<close>

lemma steps_reach_from_hd:
  "set (steps q) \<subseteq> E \<Longrightarrow> x \<in> set q \<Longrightarrow> (hd q, x) \<in> E\<^sup>*"
proof (induction q arbitrary: x rule: rev_induct)
  case Nil
  then show ?case by simp
next
  case (snoc y q)
  show ?case
  proof (cases "q = []")
    case True
    with snoc.prems show ?thesis by simp
  next
    case False
    have st: "steps (q @ [y]) = steps q @ [(last q, y)]"
      using False by (simp add: steps_append steps_simps)
    with snoc.prems have sub: "set (steps q) \<subseteq> E" and e: "(last q, y) \<in> E" by auto
    have hd: "hd (q @ [y]) = hd q" using False by simp
    show ?thesis
    proof (cases "x \<in> set q")
      case True
      from snoc.IH[OF sub True] hd show ?thesis by simp
    next
      case False
      with snoc.prems have "x = y" by simp
      moreover have "(hd q, last q) \<in> E\<^sup>*" using snoc.IH[OF sub, of "last q"] \<open>q \<noteq> []\<close> by simp
      ultimately show ?thesis using e hd by (auto intro: rtrancl_into_rtrancl)
    qed
  qed
qed

lemma steps_reach_last:
  "set (steps q) \<subseteq> E \<Longrightarrow> x \<in> set q \<Longrightarrow> (x, last q) \<in> E\<^sup>*"
proof (induction q arbitrary: x)
  case Nil
  then show ?case by simp
next
  case (Cons y q)
  show ?case
  proof (cases "q = []")
    case True
    with Cons.prems show ?thesis by simp
  next
    case False
    with Cons.prems have sub: "set (steps q) \<subseteq> E" and e: "(y, hd q) \<in> E"
      by (auto simp: steps_Cons)
    have l: "last (y # q) = last q" using False by simp
    show ?thesis
    proof (cases "x \<in> set q")
      case True
      from Cons.IH[OF sub True] l show ?thesis by simp
    next
      case False
      with Cons.prems have "x = y" by simp
      moreover have "(hd q, last q) \<in> E\<^sup>*" using Cons.IH[OF sub, of "hd q"] \<open>q \<noteq> []\<close> by simp
      ultimately show ?thesis using e l by (auto intro: converse_rtrancl_into_rtrancl)
    qed
  qed
qed

lemma steps_source_reach:
  assumes "set (steps q) \<subseteq> E" "(x, y) \<in> set (steps q)"
  shows "(hd q, x) \<in> E\<^sup>*"
  using steps_reach_from_hd[OF assms(1)] steps_nodes[OF assms(2)] by blast

text \<open>The lexicographic order and concatenation.\<close>

lemma lex_append_le:
  fixes xs ys zs ws :: "'a::linorder list"
  assumes "length xs = length ys" "xs \<le> ys" "zs \<le> ws"
  shows "xs @ zs \<le> ys @ ws"
  using assms
proof (induction xs ys rule: list_induct2)
  case Nil
  then show ?case by simp
next
  case (Cons x xs y ys)
  then show ?case by auto
qed

lemma trail_length: "trail S q \<Longrightarrow> length q = card S + 1"
proof -
  assume t: "trail S q"
  then have "card S = length (steps q)" by (auto simp: trail_def distinct_card)
  with t show ?thesis by (cases q) (auto simp: length_steps trail_def)
qed

text \<open>Along any sequence of stops, every node is left as often as it is entered, up to
  the first and the last stop.\<close>

lemma steps_balance:
  "q \<noteq> [] \<Longrightarrow>
   int (length (filter (\<lambda>e. fst e = x) (steps q))) + (if x = last q then 1 else 0)
   = int (length (filter (\<lambda>e. snd e = x) (steps q))) + (if x = hd q then 1 else 0)"
proof (induction q)
  case Nil
  then show ?case by simp
next
  case (Cons y q)
  show ?case
  proof (cases "q = []")
    case True
    then show ?thesis by (simp add: steps_simps)
  next
    case False
    define a where "a = int (length (filter (\<lambda>e. fst e = x) (steps q)))"
    define b where "b = int (length (filter (\<lambda>e. snd e = x) (steps q)))"
    have ih: "a + (if x = last q then 1 else 0) = b + (if x = hd q then 1 else 0)"
      unfolding a_def b_def by (rule Cons.IH[OF False])
    have f: "int (length (filter (\<lambda>e. fst e = x) (steps (y # q)))) = (if y = x then 1 else 0) + a"
      unfolding a_def using False by (simp add: steps_Cons)
    have s: "int (length (filter (\<lambda>e. snd e = x) (steps (y # q)))) = (if hd q = x then 1 else 0) + b"
      unfolding b_def using False by (simp add: steps_Cons)
    have l: "last (y # q) = last q" using False by simp
    show ?thesis unfolding f s l using ih
      by (cases "x = y"; cases "x = hd q"; cases "x = last q"; simp)
  qed
qed

lemma trail_same_end:
  assumes "trail S q" "trail S q'" "hd q = hd q'"
  shows "last q = last q'"
proof -
  have c: "length (filter P (steps q)) = length (filter P (steps q'))" for P
    using assms(1,2) by (simp add: trail_def distinct_length_filter)
  from assms have ne: "q \<noteq> []" "q' \<noteq> []" by (simp_all add: trail_def)
  from steps_balance[OF ne(1), of "last q"] steps_balance[OF ne(2), of "last q"]
  show ?thesis unfolding c assms(3) by (simp split: if_splits)
qed

text \<open>A closed sequence of stops can be rotated to start at any of its stops, and
  inserted into another sequence at a stop they share.\<close>

lemma rotate_closed:
  assumes "hd (A1 @ x # A2) = last (A1 @ x # A2)"
  shows "\<exists>A'. A' \<noteq> [] \<and> hd A' = x \<and> last A' = x
              \<and> steps A' = steps (x # A2) @ steps (A1 @ [x])"
proof (cases "A1 = []")
  case True
  with assms have "last (x # A2) = x" by simp
  with True have "x # A2 \<noteq> [] \<and> hd (x # A2) = x \<and> last (x # A2) = x
      \<and> steps (x # A2) = steps (x # A2) @ steps (A1 @ [x])" by (simp add: steps_simps)
  then show ?thesis by blast
next
  case False
  define h where "h = hd A1"
  define C where "C = butlast (x # A2)"
  define D where "D = tl A1 @ [x]"
  from assms False have "last (x # A2) = h" by (simp add: h_def)
  moreover have "butlast (x # A2) @ [last (x # A2)] = x # A2"
    by (rule append_butlast_last_id) simp
  ultimately have c: "x # A2 = C @ [h]" unfolding C_def by simp
  have d: "A1 @ [x] = h # D" using False by (cases A1) (simp_all add: h_def D_def)
  let ?A' = "C @ h # D"
  have "steps ?A' = steps (C @ [h]) @ steps (h # D)" by (rule steps_join)
  then have "steps ?A' = steps (x # A2) @ steps (A1 @ [x])" by (simp only: c d)
  moreover have "hd ?A' = x" using c by (cases C) auto
  moreover have "last ?A' = x" unfolding D_def by simp
  ultimately show ?thesis by blast
qed

lemma insert_closed:
  assumes "A' \<noteq> []" "hd A' = x" "last A' = x"
  shows "steps (B1 @ A' @ B2) = steps (B1 @ [x]) @ steps A' @ steps (x # B2)"
proof -
  have "butlast A' @ [last A'] = A'" using assms(1) by (rule append_butlast_last_id)
  then have f: "A' = butlast A' @ [x]" unfolding assms(3) by simp
  define F where "F = butlast A'"
  note f = f[folded F_def]
  from assms obtain G where g: "A' = x # G" by (cases A') auto
  have "steps (B1 @ A' @ B2) = steps ((B1 @ F) @ x # B2)" by (simp add: f)
  also have "\<dots> = steps ((B1 @ F) @ [x]) @ steps (x # B2)" by (rule steps_join)
  also have "(B1 @ F) @ [x] = B1 @ x # G" using f g by simp
  also have "steps (B1 @ x # G) = steps (B1 @ [x]) @ steps (x # G)" by (rule steps_join)
  finally show ?thesis by (simp add: g)
qed

lemma splice:
  assumes "hd A = last A" "x \<in> set A" "x \<in> set B"
  shows "\<exists>p a1 a2 b1 b2. p \<noteq> [] \<and> hd p = hd B
           \<and> steps A = a1 @ a2 \<and> steps B = b1 @ b2 \<and> steps p = b1 @ a2 @ a1 @ b2"
proof -
  from assms(2) obtain A1 A2 where A: "A = A1 @ x # A2" by (meson split_list)
  from assms(3) obtain B1 B2 where B: "B = B1 @ x # B2" by (meson split_list)
  from rotate_closed[OF assms(1)[unfolded A]] obtain A' where
    A': "A' \<noteq> []" "hd A' = x" "last A' = x" "steps A' = steps (x # A2) @ steps (A1 @ [x])"
    by blast
  let ?p = "B1 @ A' @ B2"
  have "?p \<noteq> []" using A'(1) by simp
  moreover have "hd ?p = hd B" unfolding B using A'(1,2) by (cases B1) simp_all
  moreover have "steps A = steps (A1 @ [x]) @ steps (x # A2)" unfolding A by (rule steps_join)
  moreover have "steps B = steps (B1 @ [x]) @ steps (x # B2)" unfolding B by (rule steps_join)
  moreover have "steps ?p = steps (B1 @ [x]) @ steps (x # A2) @ steps (A1 @ [x]) @ steps (x # B2)"
    using insert_closed[OF A'(1-3), of B1 B2] A'(4) by simp
  ultimately show ?thesis by blast
qed

lemma splice_trail:
  assumes "hd A = last A" "x \<in> set A" "x \<in> set B"
    and "distinct (steps A)" "distinct (steps B)" "set (steps A) \<inter> set (steps B) = {}"
  shows "\<exists>p. trail (set (steps A) \<union> set (steps B)) p \<and> hd p = hd B"
proof -
  from splice[OF assms(1-3)] obtain p a1 a2 b1 b2 where
    p: "p \<noteq> []" "hd p = hd B" "steps A = a1 @ a2" "steps B = b1 @ b2" "steps p = b1 @ a2 @ a1 @ b2"
    by blast
  have "distinct (steps p)" using assms(4-6) unfolding p(3,4,5) by auto
  moreover have "set (steps p) = set (steps A) \<union> set (steps B)" unfolding p(3,4,5) by auto
  ultimately show ?thesis using p(1,2) unfolding trail_def by blast
qed

section \<open>The walk as a recursion\<close>

text \<open>The walk above a node of the stack does not look below it.\<close>

lemma findPath_step_frame:
  assumes "wstack w \<noteq> []"
  shows "findPath_step \<lparr>wgraph = wgraph w, wstack = st @ wstack w, wresult = res @ wresult w\<rparr>
         = \<lparr>wgraph = wgraph (findPath_step w), wstack = st @ wstack (findPath_step w),
            wresult = res @ wresult (findPath_step w)\<rparr>"
  using assms
  by (auto simp: findPath_step_def Let_def butlast_append split: option.splits)

lemma findPath_loop_frame:
  "findPath_loop \<lparr>wgraph = wgraph w, wstack = st @ wstack w, wresult = res @ wresult w\<rparr>
   = findPath_loop \<lparr>wgraph = wgraph (findPath_loop w), wstack = st,
                    wresult = res @ wresult (findPath_loop w)\<rparr>"
proof (induction w rule: findPath_loop.induct)
  case (1 w)
  show ?case
  proof (cases "wstack w = []")
    case True
    then have "findPath_loop w = w" by (subst findPath_loop.simps) simp
    with True show ?thesis by simp
  next
    case False
    then have l: "findPath_loop w = findPath_loop (findPath_step w)"
      by (subst findPath_loop.simps) simp
    have "findPath_loop \<lparr>wgraph = wgraph w, wstack = st @ wstack w, wresult = res @ wresult w\<rparr>
        = findPath_loop (findPath_step
            \<lparr>wgraph = wgraph w, wstack = st @ wstack w, wresult = res @ wresult w\<rparr>)"
      using False by (subst findPath_loop.simps) simp
    also have "\<dots> = findPath_loop \<lparr>wgraph = wgraph (findPath_step w),
          wstack = st @ wstack (findPath_step w), wresult = res @ wresult (findPath_step w)\<rparr>"
      by (simp only: findPath_step_frame[OF False])
    also have "\<dots> = findPath_loop \<lparr>wgraph = wgraph (findPath_loop (findPath_step w)), wstack = st,
                    wresult = res @ wresult (findPath_loop (findPath_step w))\<rparr>"
      using "1.IH" False by simp
    finally show ?thesis unfolding l .
  qed
qed

lemma findPath_run: "findPath u g = rev (wresult (run g u))"
  by (simp add: findPath_rev run_def)

lemma run_dead_end:
  assumes "adj g u = []"
  shows "run g u = \<lparr>wgraph = g, wstack = [], wresult = [u]\<rparr>"
proof -
  let ?w = "\<lparr>wgraph = g, wstack = [u], wresult = []\<rparr>"
  from assms have "map_of g u = None \<or> map_of g u = Some []"
    by (auto simp: adj_def split: option.splits)
  then have "findPath_step ?w = \<lparr>wgraph = g, wstack = [], wresult = [u]\<rparr>"
    by (auto simp: findPath_step_def)
  then show ?thesis unfolding run_def
    by (subst findPath_loop.simps, simp, subst findPath_loop.simps, simp)
qed

lemma run_unfold:
  assumes "adj g u \<noteq> []"
  defines "g1 \<equiv> AList.update u (butlast (adj g u)) g"
  defines "g2 \<equiv> wgraph (run g1 (last (adj g u)))"
  shows "wresult (run g u) = wresult (run g1 (last (adj g u))) @ wresult (run g2 u)"
proof -
  let ?v = "last (adj g u)"
  let ?w = "\<lparr>wgraph = g, wstack = [u], wresult = []\<rparr>"
  from assms(1) obtain dests where d: "map_of g u = Some dests" "dests \<noteq> []" "adj g u = dests"
    by (auto simp: adj_def split: option.splits)
  have s: "findPath_step ?w = \<lparr>wgraph = g1, wstack = [u, ?v], wresult = []\<rparr>"
    using d by (simp add: findPath_step_def g1_def)
  have "run g u = findPath_loop \<lparr>wgraph = g1, wstack = [u, ?v], wresult = []\<rparr>"
    unfolding run_def by (subst findPath_loop.simps) (simp add: s)
  also have "\<dots> = findPath_loop \<lparr>wgraph = g2, wstack = [u], wresult = wresult (run g1 ?v)\<rparr>"
    using findPath_loop_frame[of "\<lparr>wgraph = g1, wstack = [?v], wresult = []\<rparr>" "[u]" "[]"]
    by (simp add: run_def g2_def)
  also have "\<dots> = findPath_loop \<lparr>wgraph = wgraph (run g2 u), wstack = [],
        wresult = wresult (run g1 ?v) @ wresult (run g2 u)\<rparr>"
    using findPath_loop_frame[of "\<lparr>wgraph = g2, wstack = [u], wresult = []\<rparr>" "[]" "wresult (run g1 ?v)"]
    by (simp add: run_def)
  also have "\<dots> = \<lparr>wgraph = wgraph (run g2 u), wstack = [],
        wresult = wresult (run g1 ?v) @ wresult (run g2 u)\<rparr>"
    by (subst findPath_loop.simps) simp
  finally show ?thesis by simp
qed

lemma findPath_unfold:
  assumes "adj g u \<noteq> []"
  shows "findPath u g
     = findPath u (wgraph (run (AList.update u (butlast (adj g u)) g) (last (adj g u))))
       @ findPath (last (adj g u)) (AList.update u (butlast (adj g u)) g)"
  unfolding findPath_run run_unfold[OF assms] by simp

lemma findPath_dead_end: "adj g u = [] \<Longrightarrow> findPath u g = [u]"
  by (simp add: findPath_run run_dead_end)

section \<open>Trails from a node after its first edge is removed\<close>

lemma trail_split:
  assumes "trail S q" "(u, v) \<in> S"
  obtains A B where "q = A @ B" "A \<noteq> []" "B \<noteq> []" "last A = u" "hd B = v"
    "distinct (steps A)" "distinct (steps B)" "set (steps A) \<inter> set (steps B) = {}"
    "set (steps A) \<union> set (steps B) = S - {(u, v)}"
proof -
  from assms have "(u, v) \<in> set (steps q)" by (simp add: trail_def)
  from steps_split[OF this] obtain A B where
    q: "q = A @ B" "A \<noteq> []" "B \<noteq> []" "last A = u" "hd B = v" by blast
  have st: "steps q = steps A @ (u, v) # steps B"
    unfolding q(1) using q(2-5) by (simp add: steps_append)
  from assms(1) have d: "distinct (steps A @ (u, v) # steps B)"
    and s: "set (steps A @ (u, v) # steps B) = S"
    unfolding trail_def st by blast+
  from d have "distinct (steps A)" "distinct (steps B)" "set (steps A) \<inter> set (steps B) = {}"
    "(u, v) \<notin> set (steps A)" "(u, v) \<notin> set (steps B)" by auto
  moreover from this s have "set (steps A) \<union> set (steps B) = S - {(u, v)}" by auto
  ultimately show ?thesis using that q by blast
qed

lemma reach_edges_sub: "reach_edges E u \<subseteq> E"
  by (auto simp: reach_edges_def)

text \<open>Removing the first edge \<open>(u, v)\<close>: either \<open>u\<close> can no longer be reached from
  \<open>v\<close>, and every trail from \<open>u\<close> is a closed trail at \<open>u\<close>, then the edge, then
  a trail of what \<open>v\<close> reaches; or \<open>u\<close> can still be reached, and \<open>v\<close> reaches
  everything.\<close>

lemma structure_cut:
  fixes E :: "(string \<times> string) set" and u v :: string
  defines "E1 \<equiv> E - {(u, v)}"
  defines "H \<equiv> reach_edges E1 v"
  defines "K \<equiv> reach_edges (E1 - H) u"
  assumes uv: "(u, v) \<in> E" and cut: "(v, u) \<notin> E1\<^sup>*"
    and q: "trail (reach_edges E u) q" "hd q = u"
  shows "\<exists>A B. q = A @ B \<and> trail K A \<and> hd A = u \<and> last A = u \<and> trail H B \<and> hd B = v"
    and "K \<inter> H = {}" and "(u, v) \<notin> K" and "(u, v) \<notin> H"
    and "reach_edges E u = K \<union> H \<union> {(u, v)}"
proof -
  let ?S = "reach_edges E u"
  have uvS: "(u, v) \<in> ?S" using uv by (simp add: reach_edges_def)
  from trail_split[OF q(1) uvS] obtain A B where
    AB: "q = A @ B" "A \<noteq> []" "B \<noteq> []" "last A = u" "hd B = v"
      "distinct (steps A)" "distinct (steps B)" "set (steps A) \<inter> set (steps B) = {}"
      "set (steps A) \<union> set (steps B) = ?S - {(u, v)}" .
  have hdA: "hd A = u" using q(2) AB(1,2) by simp
  have S1: "?S - {(u, v)} \<subseteq> E1" unfolding E1_def reach_edges_def by auto
  have A1: "set (steps A) \<subseteq> E1" and B1: "set (steps B) \<subseteq> E1" using AB(9) S1 by blast+
  have E1E: "E1\<^sup>* \<subseteq> E\<^sup>*" unfolding E1_def by (rule rtrancl_mono) blast
  have G1: "set (steps B) \<subseteq> H"
  proof
    fix e assume e: "e \<in> set (steps B)"
    obtain x y where xy: "e = (x, y)" by (cases e)
    from steps_source_reach[OF B1 e[unfolded xy]] AB(5) have "(v, x) \<in> E1\<^sup>*" by simp
    with e B1 xy show "e \<in> H" unfolding H_def reach_edges_def by auto
  qed
  have G2: "H \<subseteq> ?S - {(u, v)}"
  proof
    fix e assume e: "e \<in> H"
    obtain x y where xy: "e = (x, y)" by (cases e)
    from e xy have 1: "(x, y) \<in> E1" and 2: "(v, x) \<in> E1\<^sup>*"
      unfolding H_def reach_edges_def by auto
    from 2 E1E have "(v, x) \<in> E\<^sup>*" by blast
    with uv have "(u, x) \<in> E\<^sup>*" by (meson converse_rtrancl_into_rtrancl)
    with 1 xy show "e \<in> ?S - {(u, v)}" unfolding E1_def reach_edges_def by auto
  qed
  have a1: "set (steps A) \<inter> H = {}"
  proof (rule ccontr)
    assume "set (steps A) \<inter> H \<noteq> {}"
    then obtain x y where e: "(x, y) \<in> set (steps A)" "(x, y) \<in> H" by auto
    from e(2) have "(v, x) \<in> E1\<^sup>*" unfolding H_def reach_edges_def by auto
    moreover have "(x, u) \<in> E1\<^sup>*"
      using steps_reach_last[OF A1, of x] steps_nodes[OF e(1)] AB(4) by simp
    ultimately show False using cut by (meson rtrancl_trans)
  qed
  have BH: "set (steps B) = H" using G1 G2 a1 AB(9) by blast
  have AK: "set (steps A) = K"
  proof
    show "set (steps A) \<subseteq> K"
    proof
      fix e assume e: "e \<in> set (steps A)"
      obtain x y where xy: "e = (x, y)" by (cases e)
      have sub: "set (steps A) \<subseteq> E1 - H" using A1 a1 by blast
      from steps_source_reach[OF sub e[unfolded xy]] hdA have "(u, x) \<in> (E1 - H)\<^sup>*" by simp
      with e sub xy show "e \<in> K" unfolding K_def reach_edges_def by auto
    qed
  next
    show "K \<subseteq> set (steps A)"
    proof
      fix e assume e: "e \<in> K"
      obtain x y where xy: "e = (x, y)" by (cases e)
      from e xy have 1: "(x, y) \<in> E1" "(x, y) \<notin> H" and 2: "(u, x) \<in> (E1 - H)\<^sup>*"
        unfolding K_def reach_edges_def by auto
      have "(E1 - H)\<^sup>* \<subseteq> E\<^sup>*" unfolding E1_def by (rule rtrancl_mono) blast
      with 2 have "(u, x) \<in> E\<^sup>*" by blast
      with 1(1) have "(x, y) \<in> ?S - {(u, v)}" unfolding E1_def reach_edges_def by auto
      with AB(9) 1(2) BH xy show "e \<in> set (steps A)" by blast
    qed
  qed
  have "trail K A" using AB(2,6) AK by (simp add: trail_def)
  moreover have "trail H B" using AB(3,7) BH by (simp add: trail_def)
  ultimately show "\<exists>A B. q = A @ B \<and> trail K A \<and> hd A = u \<and> last A = u \<and> trail H B \<and> hd B = v"
    using AB(1,4,5) hdA by blast
  show "K \<inter> H = {}" using a1 AK by simp
  show "(u, v) \<notin> H" unfolding H_def E1_def reach_edges_def by auto
  show "(u, v) \<notin> K" unfolding K_def E1_def reach_edges_def by auto
  show "?S = K \<union> H \<union> {(u, v)}" using AB(9) AK BH uvS by auto
qed

lemma structure_loop:
  fixes E :: "(string \<times> string) set" and u v :: string
  defines "E1 \<equiv> E - {(u, v)}"
  defines "H \<equiv> reach_edges E1 v"
  assumes uv: "(u, v) \<in> E" and ret: "(v, u) \<in> E1\<^sup>*"
    and q: "trail (reach_edges E u) q" "hd q = u"
  shows "H = reach_edges E u - {(u, v)}" and "\<exists>p. trail H p \<and> hd p = v"
proof -
  let ?S = "reach_edges E u"
  have uvS: "(u, v) \<in> ?S" using uv by (simp add: reach_edges_def)
  have E1E: "E1\<^sup>* \<subseteq> E\<^sup>*" unfolding E1_def by (rule rtrancl_mono) blast
  have r: "(v, x) \<in> E1\<^sup>*" if "(u, x) \<in> E\<^sup>*" for x
    using that
  proof (induction rule: rtrancl_induct)
    case base
    show ?case by (rule ret)
  next
    case (step y z)
    show ?case
    proof (cases "(y, z) = (u, v)")
      case True
      then show ?thesis by simp
    next
      case False
      with step.hyps(2) have "(y, z) \<in> E1" by (simp add: E1_def)
      with step.IH show ?thesis by (meson rtrancl_into_rtrancl)
    qed
  qed
  show H: "H = ?S - {(u, v)}"
  proof
    show "H \<subseteq> ?S - {(u, v)}"
    proof
      fix e assume e: "e \<in> H"
      obtain x y where xy: "e = (x, y)" by (cases e)
      from e xy have 1: "(x, y) \<in> E1" and 2: "(v, x) \<in> E1\<^sup>*"
        unfolding H_def reach_edges_def by auto
      from 2 E1E have "(v, x) \<in> E\<^sup>*" by blast
      with uv have "(u, x) \<in> E\<^sup>*" by (meson converse_rtrancl_into_rtrancl)
      with 1 xy show "e \<in> ?S - {(u, v)}" unfolding E1_def reach_edges_def by auto
    qed
  next
    show "?S - {(u, v)} \<subseteq> H"
      unfolding H_def reach_edges_def E1_def[symmetric] using r by (auto simp: E1_def)
  qed
  from trail_split[OF q(1) uvS] obtain A B where
    AB: "q = A @ B" "A \<noteq> []" "B \<noteq> []" "last A = u" "hd B = v"
      "distinct (steps A)" "distinct (steps B)" "set (steps A) \<inter> set (steps B) = {}"
      "set (steps A) \<union> set (steps B) = ?S - {(u, v)}" .
  have hdA: "hd A = u" using q(2) AB(1,2) by simp
  have common: "z \<in> set B \<or> set A \<inter> set B \<noteq> {}" if "(v, z) \<in> E1\<^sup>*" for z
    using that
  proof (induction rule: rtrancl_induct)
    case base
    show ?case using AB(3,5) by (metis hd_in_set)
  next
    case (step y z)
    show ?case
    proof (cases "set A \<inter> set B \<noteq> {}")
      case True
      then show ?thesis by simp
    next
      case False
      with step.IH have y: "y \<in> set B" by simp
      from step.hyps have "(y, z) \<in> H" unfolding H_def reach_edges_def by simp
      with H AB(9) consider "(y, z) \<in> set (steps A)" | "(y, z) \<in> set (steps B)" by blast
      then show ?thesis
      proof cases
        case 1
        with steps_nodes[OF 1] y False show ?thesis by blast
      next
        case 2
        with steps_nodes[OF 2] show ?thesis by simp
      qed
    qed
  qed
  from common[OF ret] AB(2,4) have "set A \<inter> set B \<noteq> {}"
    by (metis IntI empty_iff last_in_set)
  then obtain x where x: "x \<in> set A" "x \<in> set B" by blast
  have "hd A = last A" using hdA AB(4) by simp
  from splice_trail[OF this x AB(6,7,8)] AB(5,9) H
  show "\<exists>p. trail H p \<and> hd p = v" by auto
qed

lemma set_butlast_distinct:
  assumes "distinct ds" "ds \<noteq> []"
  shows "set (butlast ds) = set ds - {last ds}"
proof (cases ds rule: rev_cases)
  case Nil
  with assms(2) show ?thesis by simp
next
  case (snoc bs b)
  with assms(1) show ?thesis by auto
qed

lemma adj_Some: "adj g u \<noteq> [] \<Longrightarrow> map_of g u = Some (adj g u)"
  by (auto simp: adj_def split: option.splits)

text \<open>The graph after the first edge out of \<open>u\<close> is consumed.\<close>

lemma cut_first_edge:
  fixes g :: graph and u :: string
  assumes "good g" "adj g u \<noteq> []"
  defines "g1 \<equiv> AList.update u (butlast (adj g u)) g"
  shows "edges_of g1 = edges_of g - {(u, last (adj g u))}"
    and "good g1" and "edge_count g1 < edge_count g"
    and "(u, last (adj g u)) \<in> edges_of g"
    and "\<forall>y. (u, y) \<in> edges_of g \<longrightarrow> last (adj g u) \<le> y"
proof -
  from assms(1) have k: "distinct (map fst g)" and s: "\<And>x. distinct (adj g x)"
    and d: "\<And>x. sorted (rev (adj g x))" by (auto simp: good_def descending_def)
  have a1: "adj g1 x = (if x = u then butlast (adj g u) else adj g x)" for x
    by (simp add: g1_def adj_update)
  have sb: "set (butlast (adj g u)) = set (adj g u) - {last (adj g u)}"
    by (rule set_butlast_distinct[OF s assms(2)])
  show "edges_of g1 = edges_of g - {(u, last (adj g u))}"
  proof (rule set_eqI)
    fix e :: "string \<times> string"
    obtain x y where e: "e = (x, y)" by (cases e)
    show "e \<in> edges_of g1 \<longleftrightarrow> e \<in> edges_of g - {(u, last (adj g u))}"
      unfolding e edges_of_def using sb by (cases "x = u") (auto simp: a1)
  qed
  have sd: "sorted (rev (butlast (adj g u)))"
    using d[of u] by (cases "adj g u" rule: rev_cases) simp_all
  have "distinct (map fst g1)" unfolding g1_def using k by (simp add: distinct_update)
  moreover have "distinct (adj g1 x)" for x using s[of x] s[of u] by (simp add: a1 distinct_butlast)
  moreover have "sorted (rev (adj g1 x))" for x using d[of x] sd by (simp add: a1)
  ultimately show "good g1" unfolding good_def descending_def by blast
  from edge_count_update[OF adj_Some[OF assms(2)], of "butlast (adj g u)"] assms(2)
  show "edge_count g1 < edge_count g" unfolding g1_def by (cases "adj g u" rule: rev_cases) simp_all
  show "(u, last (adj g u)) \<in> edges_of g" using assms(2) by (simp add: edges_of_def)
  show "\<forall>y. (u, y) \<in> edges_of g \<longrightarrow> last (adj g u) \<le> y"
    unfolding last_descending[OF d[of u] assms(2)] edges_of_def by simp
qed

text \<open>The graph after the walk from \<open>v\<close> has returned to the node below it.\<close>

lemma after_walk:
  fixes g1 :: graph and v :: string
  assumes "good g1"
  defines "g2 \<equiv> wgraph (run g1 v)"
  shows "edges_of g2 = edges_of g1 - reach_edges (edges_of g1) v"
    and "good g2" and "edge_count g2 \<le> edge_count g1"
    and "adj g2 x = (if (v, x) \<in> (edges_of g1)\<^sup>* then [] else adj g1 x)"
proof -
  from assms(1) have k: "distinct (map fst g1)" and s: "\<And>x. distinct (adj g1 x)"
    and d: "\<And>x. sorted (rev (adj g1 x))" by (auto simp: good_def descending_def)
  note f = walk_final[OF k, of v, folded run_def, folded g2_def]
  show a2: "adj g2 x = (if (v, x) \<in> (edges_of g1)\<^sup>* then [] else adj g1 x)" for x
    using f(2)[of x] by simp
  show "edges_of g2 = edges_of g1 - reach_edges (edges_of g1) v"
  proof (rule set_eqI)
    fix e :: "string \<times> string"
    obtain x y where e: "e = (x, y)" by (cases e)
    have "e \<in> edges_of g2 \<longleftrightarrow> y \<in> set (adj g2 x)" by (simp add: e edges_of_def)
    also have "\<dots> \<longleftrightarrow> (v, x) \<notin> (edges_of g1)\<^sup>* \<and> y \<in> set (adj g1 x)"
      by (simp add: a2)
    also have "\<dots> \<longleftrightarrow> e \<in> edges_of g1 - reach_edges (edges_of g1) v"
      unfolding e reach_edges_def by (auto simp: edges_of_def)
    finally show "e \<in> edges_of g2 \<longleftrightarrow> e \<in> edges_of g1 - reach_edges (edges_of g1) v" .
  qed
  have "distinct (adj g2 x)" for x using s[of x] by (simp add: a2)
  moreover have "sorted (rev (adj g2 x))" for x using d[of x] by (simp add: a2)
  ultimately show "good g2" unfolding good_def descending_def using f(5) by blast
  have "findPath v g1 \<noteq> []" by (rule findPath_hd(1)[OF k])
  then have "length (findPath v g1) \<ge> 1" by (cases "findPath v g1") simp_all
  with length_findPath[of v g1] show "edge_count g2 \<le> edge_count g1"
    unfolding g2_def run_def by linarith
qed

lemma reach_edges_dead_end:
  assumes "adj g u = []"
  shows "reach_edges (edges_of g) u = {}"
proof -
  have n: "(u, y) \<notin> edges_of g" for y using assms by (simp add: edges_of_def)
  have "x = u" if "(u, x) \<in> (edges_of g)\<^sup>*" for x
    using that
  proof (cases rule: converse_rtranclE)
    case base
    then show ?thesis by simp
  next
    case (step y)
    with n show ?thesis by blast
  qed
  with n show ?thesis unfolding reach_edges_def by auto
qed

lemma trail_empty: "trail {} q \<Longrightarrow> q = [hd q]"
  by (cases q; cases "tl q") (auto simp: trail_def steps_def)

section \<open>The itinerary is the least trail\<close>

lemma findPath_least:
  "good g \<Longrightarrow> trail (reach_edges (edges_of g) u) q \<Longrightarrow> hd q = u \<Longrightarrow>
   trail (reach_edges (edges_of g) u) (findPath u g) \<and> hd (findPath u g) = u
   \<and> findPath u g \<le> q"
proof (induction "edge_count g" arbitrary: g u q rule: less_induct)
  case less
  note good = less.prems(1) and q = less.prems(2) and hq = less.prems(3)
  let ?E = "edges_of g"
  let ?S = "reach_edges ?E u"
  from q have qne: "q \<noteq> []" by (simp add: trail_def)
  show ?case
  proof (cases "adj g u = []")
    case True
    have S: "?S = {}" by (rule reach_edges_dead_end[OF True])
    from trail_empty[OF q[unfolded S]] hq have "q = [u]" by simp
    moreover have "findPath u g = [u]" by (rule findPath_dead_end[OF True])
    ultimately show ?thesis unfolding S by (simp add: trail_def steps_simps)
  next
    case False
    define v where "v = last (adj g u)"
    define g1 where "g1 = AList.update u (butlast (adj g u)) g"
    define g2 where "g2 = wgraph (run g1 v)"
    define J1 where "J1 = findPath v g1"
    define J2 where "J2 = findPath u g2"
    note c = cut_first_edge[OF good False, folded v_def g1_def]
    note a = after_walk[OF c(2), of v, folded g2_def]
    let ?E1 = "?E - {(u, v)}"
    let ?H = "reach_edges ?E1 v"
    let ?K = "reach_edges (?E1 - ?H) u"
    have E1: "edges_of g1 = ?E1" by (rule c(1))
    have E2: "edges_of g2 = ?E1 - ?H" using a(1) unfolding E1 .
    have J: "findPath u g = J2 @ J1"
      unfolding J1_def J2_def g2_def g1_def v_def by (rule findPath_unfold[OF False])
    have lt1: "edge_count g1 < edge_count g" by (rule c(3))
    have lt2: "edge_count g2 < edge_count g" using a(3) c(3) by linarith
    have uvS: "(u, v) \<in> ?S" using c(4) by (simp add: reach_edges_def)
    show ?thesis
    proof (cases "(v, u) \<in> ?E1\<^sup>*")
      case False
      from structure_cut[OF c(4) False q hq] obtain A B where
        AB: "q = A @ B" "trail ?K A" "hd A = u" "last A = u" "trail ?H B" "hd B = v"
        and dis: "?K \<inter> ?H = {}" "(u, v) \<notin> ?K" "(u, v) \<notin> ?H"
        and S: "?S = ?K \<union> ?H \<union> {(u, v)}" by blast
      from less.hyps[OF lt2 a(2) AB(2)[folded E2] AB(3)]
      have j2: "trail ?K J2" "hd J2 = u" "J2 \<le> A" unfolding J2_def E2 by blast+
      from less.hyps[OF lt1 c(2) AB(5)[folded E1] AB(6)]
      have j1: "trail ?H J1" "hd J1 = v" "J1 \<le> B" unfolding J1_def E1 by blast+
      have l2: "last J2 = u" using trail_same_end[OF j2(1) AB(2)] j2(2) AB(3,4) by simp
      from j1(1) j2(1) have ne: "J1 \<noteq> []" "J2 \<noteq> []" by (simp_all add: trail_def)
      have st: "steps (J2 @ J1) = steps J2 @ (u, v) # steps J1"
        using ne l2 j1(2) by (simp add: steps_append)
      have "trail ?S (J2 @ J1)"
        unfolding trail_def st S using j1(1) j2(1) dis ne unfolding trail_def by auto
      moreover have "hd (J2 @ J1) = u" using ne j2(2) by simp
      moreover have "J2 @ J1 \<le> A @ B"
      proof (rule lex_append_le)
        show "length J2 = length A" using trail_length[OF j2(1)] trail_length[OF AB(2)] by simp
      qed (rule j2(3), rule j1(3))
      ultimately show ?thesis unfolding J AB(1) by blast
    next
      case True
      note sl = structure_loop[OF c(4) True q hq]
      from sl(2) obtain p where p: "trail ?H p" "hd p = v" by blast
      from less.hyps[OF lt1 c(2) p(1)[folded E1] p(2)]
      have j1: "trail ?H J1" "hd J1 = v" unfolding J1_def E1 by blast+
      have least: "J1 \<le> q'" if "trail ?H q'" "hd q' = v" for q'
        using less.hyps[OF lt1 c(2) that(1)[folded E1] that(2)] unfolding J1_def by blast
      have "adj g2 u = []" using a(4)[of u] True unfolding E1 by simp
      then have "J2 = [u]" unfolding J2_def by (rule findPath_dead_end)
      then have Ju: "findPath u g = u # J1" unfolding J by simp
      from j1(1) have ne: "J1 \<noteq> []" by (simp add: trail_def)
      have st: "steps (u # J1) = (u, v) # steps J1" using ne j1(2) by (simp add: steps_Cons)
      have uvH: "(u, v) \<notin> ?H" unfolding sl(1) by simp
      have SH: "?S = insert (u, v) ?H" unfolding sl(1) using uvS by blast
      have tr: "trail ?S (u # J1)"
        unfolding trail_def st SH using j1(1) uvH unfolding trail_def by simp
      obtain q2 where q2: "q = u # q2" using qne hq by (cases q) auto
      have "steps q \<noteq> []" using q uvS by (auto simp: trail_def)
      then have q2ne: "q2 \<noteq> []" unfolding q2 by (cases q2) (simp_all add: steps_simps)
      have stq: "steps q = (u, hd q2) # steps q2" unfolding q2 using q2ne by (simp add: steps_Cons)
      from q have "(u, hd q2) \<in> ?S" unfolding trail_def stq by auto
      then have "(u, hd q2) \<in> ?E" using reach_edges_sub by blast
      with c(5) have vle: "v \<le> hd q2" by blast
      have "J1 \<le> q2"
      proof (cases "v = hd q2")
        case True
        from q have "distinct ((u, v) # steps q2)" "set ((u, v) # steps q2) = ?S"
          unfolding trail_def stq True by blast+
        then have "trail ?H q2" unfolding trail_def sl(1) using q2ne by auto
        from least[OF this] True show ?thesis by simp
      next
        case False
        with vle have "hd J1 < hd q2" using j1(2) by simp
        then show ?thesis using ne q2ne by (cases J1; cases q2) simp_all
      qed
      then have "u # J1 \<le> q" unfolding q2 by simp
      with tr show ?thesis unfolding Ju by simp
    qed
  qed
qed

lemma distinct_destinations:
  "distinct (map ticket_key ts) \<Longrightarrow>
   distinct (map (\<lambda>t. t ! 1) (filter (\<lambda>t. t ! 0 = x) ts))"
proof (induction ts)
  case Nil
  then show ?case by simp
next
  case (Cons t ts)
  then have ih: "distinct (map (\<lambda>t. t ! 1) (filter (\<lambda>t. t ! 0 = x) ts))"
    and n: "ticket_key t \<notin> ticket_key ` set ts" by simp_all
  show ?case
  proof (cases "t ! 0 = x")
    case False
    with ih show ?thesis by simp
  next
    case True
    have "t ! 1 \<notin> (\<lambda>t. t ! 1) ` set (filter (\<lambda>t. t ! 0 = x) ts)"
    proof
      assume "t ! 1 \<in> (\<lambda>t. t ! 1) ` set (filter (\<lambda>t. t ! 0 = x) ts)"
      then obtain t' where "t' \<in> set ts" "t' ! 0 = x" "t' ! 1 = t ! 1" by auto
      with True have "ticket_key t' = ticket_key t" by (simp add: ticket_key_def)
      with \<open>t' \<in> set ts\<close> n show False by (metis imageI)
    qed
    with ih True show ?thesis by simp
  qed
qed

lemma buildGraph_good:
  assumes "\<forall>g. range_order (order g) g" "buildGraph order tickets = Inr (g, od, idg)"
    and "distinct (map ticket_key tickets)"
  shows "good g"
proof -
  note G = buildGraph_graph[OF assms(1,2)]
  have "distinct (adj g x)" for x
    unfolding G(1) sort_desc_def using distinct_destinations[OF assms(3), of x] by simp
  with G(3) buildGraph_descending[OF assms(1,2)] show ?thesis unfolding good_def by blast
qed

lemma trail_reaches_all:
  assumes "trail E q"
  shows "reach_edges E (hd q) = E"
proof -
  from assms have s: "set (steps q) = E" by (simp add: trail_def)
  have "(hd q, x) \<in> E\<^sup>*" if "(x, y) \<in> E" for x y
    using steps_source_reach[of q E x y] that s by simp
  then show ?thesis unfolding reach_edges_def by auto
qed

section \<open>The first dead end of the walk\<close>

lemma finite_edges_of: "finite (edges_of g)"
proof -
  have "edges_of g \<subseteq> (\<Union>kv \<in> set g. {fst kv} \<times> set (snd kv))"
  proof
    fix e assume e: "e \<in> edges_of g"
    obtain x y where xy: "e = (x, y)" by (cases e)
    from e xy have "y \<in> set (adj g x)" by (simp add: edges_of_def)
    then obtain ds where "map_of g x = Some ds" "y \<in> set ds"
      by (cases "map_of g x") (auto simp: adj_def)
    then have "(x, ds) \<in> set g" "y \<in> set ds" by (auto dest: map_of_SomeD)
    then show "e \<in> (\<Union>kv \<in> set g. {fst kv} \<times> set (snd kv))" unfolding xy by force
  qed
  moreover have "finite (\<Union>kv \<in> set g. {fst kv} \<times> set (snd kv))" by simp
  ultimately show ?thesis by (rule finite_subset)
qed

lemma consume_edge:
  fixes g :: graph and u :: string
  assumes k: "distinct (map fst g)" and s: "\<forall>x. distinct (adj g x)" and ne: "adj g u \<noteq> []"
  defines "g1 \<equiv> AList.update u (butlast (adj g u)) g"
  shows "distinct (map fst g1)" and "\<forall>x. distinct (adj g1 x)"
    and "edge_count g1 < edge_count g"
    and "length (adj g x) = length (adj g1 x) + (if x = u then 1 else 0)"
    and "in_count g x = in_count g1 x + (if x = last (adj g u) then 1 else 0)"
proof -
  let ?v = "last (adj g u)"
  have a1: "adj g1 x = (if x = u then butlast (adj g u) else adj g x)" for x
    by (simp add: g1_def adj_update)
  show "distinct (map fst g1)" unfolding g1_def using k by (simp add: distinct_update)
  show "\<forall>x. distinct (adj g1 x)" using s by (simp add: a1 distinct_butlast)
  from edge_count_update[OF adj_Some[OF ne], of "butlast (adj g u)"] ne
  show "edge_count g1 < edge_count g" unfolding g1_def by (cases "adj g u" rule: rev_cases) simp_all
  show "length (adj g x) = length (adj g1 x) + (if x = u then 1 else 0)"
    using ne by (cases "adj g u" rule: rev_cases) (simp_all add: a1)
  have sb: "set (butlast (adj g u)) = set (adj g u) - {?v}"
    using s ne by (simp add: set_butlast_distinct)
  have E1: "edges_of g1 = edges_of g - {(u, ?v)}"
  proof (rule set_eqI)
    fix e :: "string \<times> string"
    obtain a b where e: "e = (a, b)" by (cases e)
    show "e \<in> edges_of g1 \<longleftrightarrow> e \<in> edges_of g - {(u, ?v)}"
      unfolding e edges_of_def using sb by (cases "a = u") (auto simp: a1)
  qed
  have uv: "(u, ?v) \<in> edges_of g" using ne by (simp add: edges_of_def)
  have fin: "finite {y. (y, x) \<in> edges_of g}"
  proof -
    have "{y. (y, x) \<in> edges_of g} \<subseteq> fst ` edges_of g" by force
    then show ?thesis using finite_edges_of[of g] by (meson finite_imageI finite_subset)
  qed
  show "in_count g x = in_count g1 x + (if x = ?v then 1 else 0)"
  proof (cases "x = ?v")
    case True
    have eq: "{y. (y, x) \<in> edges_of g1} = {y. (y, x) \<in> edges_of g} - {u}"
      unfolding E1 True by auto
    have mem: "u \<in> {y. (y, x) \<in> edges_of g}" using uv True by simp
    have "card ({y. (y, x) \<in> edges_of g} - {u}) = card {y. (y, x) \<in> edges_of g} - 1"
      using mem by (rule card_Diff_singleton)
    moreover have "0 < card {y. (y, x) \<in> edges_of g}"
      using fin mem by (subst card_gt_0_iff) blast
    ultimately have "card {y. (y, x) \<in> edges_of g} = card {y. (y, x) \<in> edges_of g1} + 1"
      unfolding eq by linarith
    then show ?thesis unfolding in_count_def using True by simp
  next
    case False
    have "{y. (y, x) \<in> edges_of g1} = {y. (y, x) \<in> edges_of g}"
      unfolding E1 using False by auto
    then show ?thesis unfolding in_count_def using False by simp
  qed
qed

text \<open>The walk stops for the first time at a node that it has entered more often than
  left, unless that node is the one it started from.\<close>

lemma first_dead_end:
  "distinct (map fst g) \<Longrightarrow> \<forall>x. distinct (adj g x) \<Longrightarrow>
   length (adj g (last (findPath u g))) + (if last (findPath u g) = u then 0 else 1)
     \<le> in_count g (last (findPath u g))"
proof (induction "edge_count g" arbitrary: g u rule: less_induct)
  case less
  note k = less.prems(1) and s = less.prems(2)
  show ?case
  proof (cases "adj g u = []")
    case True
    then show ?thesis by (simp add: findPath_dead_end)
  next
    case False
    define v where "v = last (adj g u)"
    define g1 where "g1 = AList.update u (butlast (adj g u)) g"
    define d where "d = last (findPath v g1)"
    note c = consume_edge[OF k s False, folded g1_def v_def]
    have "findPath v g1 \<noteq> []" by (rule findPath_hd(1)[OF c(1)])
    then have l: "last (findPath u g) = d"
      unfolding findPath_unfold[OF False] d_def g1_def v_def by simp
    from less.hyps[OF c(3) c(1) c(2), of v]
    have ih: "length (adj g1 d) + (if d = v then 0 else 1) \<le> in_count g1 d"
      unfolding d_def .
    show ?thesis unfolding l using ih c(4)[of d] c(5)[of d]
      by (simp split: if_splits)
  qed
qed

text \<open>Whatever order the sorting loop follows, it permutes each adjacency list and
  leaves the keys alone.\<close>

lemma buildGraph_sort_any:
  "map fst (buildGraph_sort ks g) = map fst g
   \<and> (\<forall>x. set (adj (buildGraph_sort ks g) x) = set (adj g x)
          \<and> length (adj (buildGraph_sort ks g) x) = length (adj g x)
          \<and> distinct (adj (buildGraph_sort ks g) x) = distinct (adj g x))"
proof (induction ks arbitrary: g)
  case Nil
  then show ?case by simp
next
  case (Cons src ks)
  define g' where "g' = (case map_of g src of None \<Rightarrow> g
                         | Some ds \<Rightarrow> AList.update src (sort_desc ds) g)"
  have a: "adj g' x = (if x = src then sort_desc (adj g x) else adj g x)" for x
    unfolding g'_def by (cases "map_of g src") (auto simp: adj_def update_conv' sort_desc_def)
  have k: "map fst g' = map fst g"
  proof (cases "map_of g src")
    case None
    then show ?thesis by (simp add: g'_def)
  next
    case (Some ds)
    then have "(src, ds) \<in> set g" by (rule map_of_SomeD)
    then have "src \<in> fst ` set g" by force
    with Some show ?thesis by (simp add: g'_def update_keys)
  qed
  have s: "set (adj g' x) = set (adj g x) \<and> length (adj g' x) = length (adj g x)
           \<and> distinct (adj g' x) = distinct (adj g x)" for x
    by (simp add: a sort_desc_def)
  have "buildGraph_sort (src # ks) g = buildGraph_sort ks g'" by (simp add: g'_def)
  with Cons.IH[of g'] k s show ?case by simp
qed

lemma distinct_sources:
  "distinct (map ticket_key ts) \<Longrightarrow>
   distinct (map (\<lambda>t. t ! 0) (filter (\<lambda>t. t ! 1 = x) ts))"
proof (induction ts)
  case Nil
  then show ?case by simp
next
  case (Cons t ts)
  then have ih: "distinct (map (\<lambda>t. t ! 0) (filter (\<lambda>t. t ! 1 = x) ts))"
    and n: "ticket_key t \<notin> ticket_key ` set ts" by simp_all
  show ?case
  proof (cases "t ! 1 = x")
    case False
    with ih show ?thesis by simp
  next
    case True
    have "t ! 0 \<notin> (\<lambda>t. t ! 0) ` set (filter (\<lambda>t. t ! 1 = x) ts)"
    proof
      assume "t ! 0 \<in> (\<lambda>t. t ! 0) ` set (filter (\<lambda>t. t ! 1 = x) ts)"
      then obtain t' where "t' \<in> set ts" "t' ! 1 = x" "t' ! 0 = t ! 0" by auto
      with True have "ticket_key t' = ticket_key t" by (simp add: ticket_key_def)
      with \<open>t' \<in> set ts\<close> n show False by (metis imageI)
    qed
    with ih True show ?thesis by simp
  qed
qed

text \<open>The graph and the degree tables of validated tickets, for any order of the
  sorting loop.\<close>

lemma buildGraph_degrees:
  assumes b: "buildGraph order tickets = Inr (g, od, idg)"
    and d: "distinct (map ticket_key tickets)"
  shows "distinct (map fst g)" and "\<forall>x. distinct (adj g x)"
    and "int (length (adj g x)) = count_at od x"
    and "int (in_count g x) = count_at idg x"
proof -
  from b obtain g0 where b0: "buildGraph_insert tickets ([], [], []) = Inr (g0, od, idg)"
    and g: "g = buildGraph_sort (order g0) g0"
    by (auto simp: buildGraph_def split: sum.splits)
  note sa = buildGraph_sort_any[of "order g0" g0, folded g]
  have a0: "adj g0 y = map (\<lambda>t. t ! 1) (filter (\<lambda>t. t ! 0 = y) tickets)" for y
    using buildGraph_insert_adj[OF b0, of y] by (simp add: adj_def)
  show "distinct (map fst g)" using sa buildGraph_insert_distinct_keys[OF b0] by simp
  show "\<forall>x. distinct (adj g x)" using sa distinct_destinations[OF d] by (simp add: a0)
  have "length (adj g x) = length (filter (\<lambda>t. t ! 0 = x) tickets)"
    using sa by (simp add: a0)
  then show "int (length (adj g x)) = count_at od x"
    using buildGraph_tables(1)[OF b, of x] by (simp add: out_degree_def)
  have "{y. (y, x) \<in> edges_of g} = set (map (\<lambda>t. t ! 0) (filter (\<lambda>t. t ! 1 = x) tickets))"
  proof -
    have "(y, x) \<in> edges_of g \<longleftrightarrow> x \<in> set (adj g0 y)" for y
      using sa by (simp add: edges_of_def)
    then show ?thesis unfolding a0 by auto
  qed
  then have "in_count g x = length (filter (\<lambda>t. t ! 1 = x) tickets)"
    unfolding in_count_def using distinct_card[OF distinct_sources[OF d, of x]] by simp
  then show "int (in_count g x) = count_at idg x"
    using buildGraph_tables(2)[OF b, of x] by (simp add: in_degree_def)
qed

lemma findStartingPoint_imbalance:
  assumes "findStartingPoint ks1 ks2 od idg = Inr start"
  shows "count_at od start - count_at idg start = 1"
proof -
  let ?c = "filter (\<lambda>n. count_at od n - count_at idg n = 1) ks1"
  from assms have "length ?c = 1" and "start = hd ?c"
    by (auto simp: findStartingPoint_char split: if_splits)
  then have "start \<in> set ?c" by (cases ?c) auto
  then show ?thesis by simp
qed

text \<open>After the endpoint resolver has accepted the tickets, the walk never closes:
  it starts at the start node and stops for the first time somewhere else.\<close>

lemma walk_never_closes:
  assumes "validateTickets tickets = Inr tc"
    and "buildGraph order tickets = Inr (g, od, idg)"
    and "findStartingPoint ks1 ks2 od idg = Inr start"
  shows "hd (findPath start g) = start" and "last (findPath start g) \<noteq> start"
    and "length (findPath start g) \<ge> 2"
proof -
  note D = buildGraph_degrees[OF assms(2) validateTickets_Inr(2)[OF assms(1)]]
  show h: "hd (findPath start g) = start" by (rule findPath_hd(2)[OF D(1)])
  have ne: "findPath start g \<noteq> []" by (rule findPath_hd(1)[OF D(1)])
  show l: "last (findPath start g) \<noteq> start"
  proof
    assume e: "last (findPath start g) = start"
    from first_dead_end[OF D(1,2), of start] e
    have "length (adj g start) \<le> in_count g start" by simp
    then have "count_at od start \<le> count_at idg start"
      using D(3)[of start] D(4)[of start] by linarith
    with findStartingPoint_imbalance[OF assms(3)] show False by linarith
  qed
  from ne h l show "length (findPath start g) \<ge> 2"
    by (cases "findPath start g"; cases "tl (findPath start g)") auto
qed

section \<open>The claims on the itinerary and the endpoint errors\<close>




text \<open>
  C3.  On a non-empty list of tickets without a repeated (source, destination) pair, a
  call returns \<open>ErrDifferentStartingPoints\<close> exactly when the number of nodes whose
  out-degree exceeds the in-degree by one is zero or more than one, or some node's
  degrees differ by more than one, or the number of nodes whose in-degree exceeds the
  out-degree by one is not one.
\<close>

theorem different_starting_points:
  assumes "fair sch" "well_formed tickets" "tickets \<noteq> []" "distinct (map ticket_key tickets)"
  shows "ReconstructItinerary sch tickets = Inl ErrDifferentStartingPoints
     \<longleftrightarrow> (card {n. out_degree tickets n - in_degree tickets n = 1} = 0
          \<or> card {n. out_degree tickets n - in_degree tickets n = 1} > 1)
        \<or> (\<exists>n. \<bar>out_degree tickets n - in_degree tickets n\<bar> > 1)
        \<or> card {n. in_degree tickets n - out_degree tickets n = 1} \<noteq> 1"
proof -
  from validateTickets_char[OF assms(2)] assms(4)
  obtain tc where v: "validateTickets tickets = Inr tc" by auto
  from buildGraph_well_formed[OF assms(2)]
  obtain g od idg where b: "buildGraph (order_graph sch) tickets = Inr (g, od, idg)" by blast
  define f where "f = findStartingPoint (order_start sch od) (order_balanced sch od) od idg"
  define e where "e = (\<lambda>start. validateEndPoints (order_end sch idg) [start] od idg)"
  have "ReconstructItinerary sch tickets = Inl ErrDifferentStartingPoints
        \<longleftrightarrow> \<not> (\<exists>start. f = Inr start \<and> e start = None)"
    unfolding ReconstructItinerary_validated[OF assms(3) v b] f_def[symmetric]
    by (cases f) (auto simp: e_def split: option.splits)
  also have "\<dots> \<longleftrightarrow> \<not> endpoints_ok tickets"
    unfolding f_def e_def resolver_char[OF assms(1) b] ..
  also have "\<dots> \<longleftrightarrow> (card {n. out_degree tickets n - in_degree tickets n = 1} = 0
          \<or> card {n. out_degree tickets n - in_degree tickets n = 1} > 1)
        \<or> (\<exists>n. \<bar>out_degree tickets n - in_degree tickets n\<bar> > 1)
        \<or> card {n. in_degree tickets n - out_degree tickets n = 1} \<noteq> 1"
    unfolding endpoints_ok_def by (auto simp: not_le)
  finally show ?thesis .
qed

theorem different_starting_points_witness:
  "fair forward
   \<and> well_formed [[''SFO'', ''LAX''], [''LAX'', ''JFK''], [''JFK'', ''SFO'']]
   \<and> [[''SFO'', ''LAX''], [''LAX'', ''JFK''], [''JFK'', ''SFO'']] \<noteq> []
   \<and> distinct (map ticket_key [[''SFO'', ''LAX''], [''LAX'', ''JFK''], [''JFK'', ''SFO'']])
   \<and> ReconstructItinerary forward [[''SFO'', ''LAX''], [''LAX'', ''JFK''], [''JFK'', ''SFO'']]
       = Inl ErrDifferentStartingPoints
   \<and> ((card {n. out_degree [[''SFO'', ''LAX''], [''LAX'', ''JFK''], [''JFK'', ''SFO'']] n
                - in_degree [[''SFO'', ''LAX''], [''LAX'', ''JFK''], [''JFK'', ''SFO'']] n = 1} = 0
        \<or> card {n. out_degree [[''SFO'', ''LAX''], [''LAX'', ''JFK''], [''JFK'', ''SFO'']] n
                - in_degree [[''SFO'', ''LAX''], [''LAX'', ''JFK''], [''JFK'', ''SFO'']] n = 1} > 1)
       \<or> (\<exists>n. \<bar>out_degree [[''SFO'', ''LAX''], [''LAX'', ''JFK''], [''JFK'', ''SFO'']] n
                - in_degree [[''SFO'', ''LAX''], [''LAX'', ''JFK''], [''JFK'', ''SFO'']] n\<bar> > 1)
       \<or> card {n. in_degree [[''SFO'', ''LAX''], [''LAX'', ''JFK''], [''JFK'', ''SFO'']] n
                - out_degree [[''SFO'', ''LAX''], [''LAX'', ''JFK''], [''JFK'', ''SFO'']] n = 1} \<noteq> 1)"
proof -
  have w: "well_formed [[''SFO'', ''LAX''], [''LAX'', ''JFK''], [''JFK'', ''SFO'']]"
    by (simp add: well_formed_def)
  have n: "[[''SFO'', ''LAX''], [''LAX'', ''JFK''], [''JFK'', ''SFO'']] \<noteq> []" by simp
  have d: "distinct (map ticket_key [[''SFO'', ''LAX''], [''LAX'', ''JFK''], [''JFK'', ''SFO'']])"
    by (simp add: ticket_key_def)
  have r: "ReconstructItinerary forward [[''SFO'', ''LAX''], [''LAX'', ''JFK''], [''JFK'', ''SFO'']]
       = Inl ErrDifferentStartingPoints" by code_simp
  from different_starting_points[OF fair_forward w n d] r fair_forward w n d
  show ?thesis by blast
qed

section \<open>The claim on the tie-break\<close>

text \<open>
  C2, as the specification states it, fails: the adjacency lists are sorted in
  descending order and consumed from their end, so the walk takes the smallest
  destination first.  On the tickets JFK-SFO, JFK-ATL, SFO-ATL, ATL-JFK the call
  returns JFK, ATL, JFK, SFO, ATL, although JFK, SFO, ATL, JFK, ATL also uses every
  ticket once from JFK and is lexicographically greater.
\<close>

theorem greatest_trail_counterexample:
  "ReconstructItinerary forward
     [[''JFK'', ''SFO''], [''JFK'', ''ATL''], [''SFO'', ''ATL''], [''ATL'', ''JFK'']]
     = Inr [''JFK'', ''ATL'', ''JFK'', ''SFO'', ''ATL'']
   \<and> eulerian_trail [[''JFK'', ''SFO''], [''JFK'', ''ATL''], [''SFO'', ''ATL''], [''ATL'', ''JFK'']]
        [''JFK'', ''SFO'', ''ATL'', ''JFK'', ''ATL'']
   \<and> [''JFK'', ''ATL'', ''JFK'', ''SFO'', ''ATL''] < [''JFK'', ''SFO'', ''ATL'', ''JFK'', ''ATL'']"
proof -
  have "eulerian_trail [[''JFK'', ''SFO''], [''JFK'', ''ATL''], [''SFO'', ''ATL''], [''ATL'', ''JFK'']]
        [''JFK'', ''SFO'', ''ATL'', ''JFK'', ''ATL'']"
    by (simp add: eulerian_trail_def steps_def ticket_key_def) blast
  moreover have "[''JFK'', ''ATL'', ''JFK'', ''SFO'', ''ATL''] < [''JFK'', ''SFO'', ''ATL'', ''JFK'', ''ATL'']"
    by (simp add: less_char_def)
  ultimately show ?thesis using example_forward by blast
qed

text \<open>
  C2, amended.  When a call on a non-empty ticket list returns an itinerary and the
  tickets admit a trail that starts at the itinerary's first stop and uses every ticket
  exactly once, then the itinerary is such a trail, and it is the lexicographically
  least of them: among the destinations that leave a valid trail possible, the smaller
  one comes first.
\<close>

theorem least_trail:
  assumes "fair sch" and "ReconstructItinerary sch tickets = Inr itinerary" and "tickets \<noteq> []"
    and "eulerian_trail tickets stops" and "hd stops = hd itinerary"
  shows "eulerian_trail tickets itinerary \<and> itinerary \<le> stops"
proof -
  from assms(2,3) obtain tc g od idg start where
    v: "validateTickets tickets = Inr tc"
    and b: "buildGraph (order_graph sch) tickets = Inr (g, od, idg)"
    and it: "itinerary = findPath start g"
    by (rule ReconstructItinerary_Inr)
  from assms(1) have o: "\<forall>g. range_order (order_graph sch g) g" by (simp add: fair_def)
  note G = buildGraph_graph[OF o b]
  have good: "good g" by (rule buildGraph_good[OF o b validateTickets_Inr(2)[OF v]])
  have E: "edges_of g = set (map ticket_key tickets)"
    unfolding G(4) using ticket_edges[of tickets] by simp
  have hd: "hd stops = start" using assms(5) findPath_hd(2)[OF G(3), of start] by (simp add: it)
  have t: "trail (edges_of g) stops" using assms(4) unfolding eulerian_trail_def trail_def E .
  from trail_reaches_all[OF t] hd have r: "reach_edges (edges_of g) start = edges_of g" by simp
  have t': "trail (reach_edges (edges_of g) start) stops" using t by (simp only: r)
  from findPath_least[OF good t' hd]
  have "trail (edges_of g) (findPath start g)" "findPath start g \<le> stops" unfolding r by blast+
  then show ?thesis unfolding it eulerian_trail_def trail_def E by blast
qed

theorem least_trail_witness:
  "fair forward
   \<and> ReconstructItinerary forward
        [[''JFK'', ''SFO''], [''JFK'', ''ATL''], [''SFO'', ''ATL''], [''ATL'', ''JFK'']]
      = Inr [''JFK'', ''ATL'', ''JFK'', ''SFO'', ''ATL'']
   \<and> [[''JFK'', ''SFO''], [''JFK'', ''ATL''], [''SFO'', ''ATL''], [''ATL'', ''JFK'']] \<noteq> []
   \<and> eulerian_trail [[''JFK'', ''SFO''], [''JFK'', ''ATL''], [''SFO'', ''ATL''], [''ATL'', ''JFK'']]
        [''JFK'', ''SFO'', ''ATL'', ''JFK'', ''ATL'']
   \<and> hd [''JFK'', ''SFO'', ''ATL'', ''JFK'', ''ATL''] = hd [''JFK'', ''ATL'', ''JFK'', ''SFO'', ''ATL'']
   \<and> eulerian_trail [[''JFK'', ''SFO''], [''JFK'', ''ATL''], [''SFO'', ''ATL''], [''ATL'', ''JFK'']]
        [''JFK'', ''ATL'', ''JFK'', ''SFO'', ''ATL'']
   \<and> [''JFK'', ''ATL'', ''JFK'', ''SFO'', ''ATL''] \<le> [''JFK'', ''SFO'', ''ATL'', ''JFK'', ''ATL'']"
proof -
  have n: "[[''JFK'', ''SFO''], [''JFK'', ''ATL''], [''SFO'', ''ATL''], [''ATL'', ''JFK'']] \<noteq> []"
    by simp
  have e: "eulerian_trail [[''JFK'', ''SFO''], [''JFK'', ''ATL''], [''SFO'', ''ATL''], [''ATL'', ''JFK'']]
        [''JFK'', ''SFO'', ''ATL'', ''JFK'', ''ATL'']"
    by (simp add: eulerian_trail_def steps_def ticket_key_def) blast
  have h: "hd [''JFK'', ''SFO'', ''ATL'', ''JFK'', ''ATL''] = hd [''JFK'', ''ATL'', ''JFK'', ''SFO'', ''ATL'']"
    by simp
  from least_trail[OF fair_forward example_forward n e h] fair_forward example_forward n e h
  show ?thesis by blast
qed

section \<open>The claims\<close>

text \<open>
  C4.  On tickets that each have a source and a destination, a call returns
  \<open>ErrMultipleSameDestination\<close> exactly when some ordered pair (source, destination)
  occurs at least twice in the list, wherever the repetition stands; tickets that share
  only a source or only a destination have different keys and are not rejected by it.
\<close>

theorem duplicate_ticket_error:
  assumes "well_formed tickets"
  shows "ReconstructItinerary sch tickets = Inl ErrMultipleSameDestination
         \<longleftrightarrow> \<not> distinct (map ticket_key tickets)"
  using ReconstructItinerary_duplicate[OF assms, of sch]
    ReconstructItinerary_not_duplicate(1)[OF assms, of sch]
  by blast

theorem duplicate_ticket_error_witness:
  "well_formed [[''JFK'', ''SFO''], [''JFK'', ''ATL''], [''JFK'', ''SFO''], [''SFO'', ''LAX''], [''ATL'', ''LAX'']]
   \<and> \<not> distinct (map ticket_key
         [[''JFK'', ''SFO''], [''JFK'', ''ATL''], [''JFK'', ''SFO''], [''SFO'', ''LAX''], [''ATL'', ''LAX'']])
   \<and> ReconstructItinerary forward
         [[''JFK'', ''SFO''], [''JFK'', ''ATL''], [''JFK'', ''SFO''], [''SFO'', ''LAX''], [''ATL'', ''LAX'']]
       = Inl ErrMultipleSameDestination"
  using duplicate_ticket_error[of
      "[[''JFK'', ''SFO''], [''JFK'', ''ATL''], [''JFK'', ''SFO''], [''SFO'', ''LAX''], [''ATL'', ''LAX'']]"
      forward]
  by (simp add: well_formed_def ticket_key_def)

text \<open>
  C5.  When the tickets pass validation and the endpoint resolver yields a start, the
  call returns \<open>ErrCycleInItinerary\<close> exactly when the sequence produced by the walk
  has at least two elements and begins and ends with the same one.  After the endpoint
  resolver neither happens: the start node has one more outgoing than incoming ticket,
  so the walk, which begins there, meets its first dead end (the last stop of the
  sequence) at another node; the sequence has at least two stops, the first differs
  from the last, and the call returns the sequence.
\<close>

theorem cycle_error:
  assumes "tickets \<noteq> []"
    and "validateTickets tickets = Inr ticketCount"
    and "buildGraph (order_graph sch) tickets = Inr (graph, outDegree, inDegree)"
    and "findStartingPoint (order_start sch outDegree) (order_balanced sch outDegree)
           outDegree inDegree = Inr start"
    and "validateEndPoints (order_end sch inDegree) [start] outDegree inDegree = None"
  shows "(ReconstructItinerary sch tickets = Inl ErrCycleInItinerary
          \<longleftrightarrow> length (findPath start graph) \<ge> 2
               \<and> hd (findPath start graph) = last (findPath start graph))
         \<and> length (findPath start graph) \<ge> 2
         \<and> hd (findPath start graph) = start
         \<and> last (findPath start graph) \<noteq> start
         \<and> ReconstructItinerary sch tickets = Inr (findPath start graph)"
proof -
  note w = walk_never_closes[OF assms(2,3,4)]
  have r: "ReconstructItinerary sch tickets =
      (if length (findPath start graph) \<ge> 2
          \<and> hd (findPath start graph) = last (findPath start graph)
       then Inl ErrCycleInItinerary else Inr (findPath start graph))"
    by (simp add: ReconstructItinerary_validated[OF assms(1-3)] assms(4,5))
  from w have n: "hd (findPath start graph) \<noteq> last (findPath start graph)" by simp
  from r n have "ReconstructItinerary sch tickets = Inr (findPath start graph)" by simp
  with w n show ?thesis by simp
qed

theorem cycle_error_witness:
  "[[''JFK'', ''SFO''], [''SFO'', ''LAX''], [''LAX'', ''JFK''], [''JFK'', ''ATL'']] \<noteq> []
   \<and> validateTickets [[''JFK'', ''SFO''], [''SFO'', ''LAX''], [''LAX'', ''JFK''], [''JFK'', ''ATL'']]
       = Inr [((''JFK'', ''SFO''), 1), ((''SFO'', ''LAX''), 1), ((''LAX'', ''JFK''), 1),
              ((''JFK'', ''ATL''), 1)]
   \<and> buildGraph (order_graph forward)
         [[''JFK'', ''SFO''], [''SFO'', ''LAX''], [''LAX'', ''JFK''], [''JFK'', ''ATL'']]
       = Inr ([(''JFK'', [''SFO'', ''ATL'']), (''SFO'', [''LAX'']), (''LAX'', [''JFK''])],
              [(''JFK'', 2), (''SFO'', 1), (''LAX'', 1)],
              [(''SFO'', 1), (''LAX'', 1), (''JFK'', 1), (''ATL'', 1)])
   \<and> findStartingPoint (order_start forward [(''JFK'', 2), (''SFO'', 1), (''LAX'', 1)])
         (order_balanced forward [(''JFK'', 2), (''SFO'', 1), (''LAX'', 1)])
         [(''JFK'', 2), (''SFO'', 1), (''LAX'', 1)]
         [(''SFO'', 1), (''LAX'', 1), (''JFK'', 1), (''ATL'', 1)] = Inr ''JFK''
   \<and> validateEndPoints (order_end forward [(''SFO'', 1), (''LAX'', 1), (''JFK'', 1), (''ATL'', 1)])
         [''JFK''] [(''JFK'', 2), (''SFO'', 1), (''LAX'', 1)]
         [(''SFO'', 1), (''LAX'', 1), (''JFK'', 1), (''ATL'', 1)] = None
   \<and> findPath ''JFK'' [(''JFK'', [''SFO'', ''ATL'']), (''SFO'', [''LAX'']), (''LAX'', [''JFK''])]
       = [''JFK'', ''SFO'', ''LAX'', ''JFK'', ''ATL'']
   \<and> ReconstructItinerary forward
         [[''JFK'', ''SFO''], [''SFO'', ''LAX''], [''LAX'', ''JFK''], [''JFK'', ''ATL'']]
       = Inr [''JFK'', ''SFO'', ''LAX'', ''JFK'', ''ATL'']
   \<and> ReconstructItinerary forward
         [[''JFK'', ''SFO''], [''SFO'', ''LAX''], [''LAX'', ''JFK''], [''JFK'', ''ATL'']]
       \<noteq> Inl ErrCycleInItinerary"
proof -
  let ?T = "[[''JFK'', ''SFO''], [''SFO'', ''LAX''], [''LAX'', ''JFK''], [''JFK'', ''ATL'']]"
  let ?g = "[(''JFK'', [''SFO'', ''ATL'']), (''SFO'', [''LAX'']), (''LAX'', [''JFK''])]"
  let ?od = "[(''JFK'', 2), (''SFO'', 1), (''LAX'', 1)]"
  let ?idg = "[(''SFO'', 1), (''LAX'', 1), (''JFK'', 1), (''ATL'', 1)]"
  have a: "?T \<noteq> []" by simp
  have b: "validateTickets ?T
       = Inr [((''JFK'', ''SFO''), 1), ((''SFO'', ''LAX''), 1), ((''LAX'', ''JFK''), 1),
              ((''JFK'', ''ATL''), 1)]" by code_simp
  have c: "buildGraph (order_graph forward) ?T = Inr (?g, ?od, ?idg)" by code_simp
  have d: "findStartingPoint (order_start forward ?od) (order_balanced forward ?od) ?od ?idg
       = Inr ''JFK''" by code_simp
  have e: "validateEndPoints (order_end forward ?idg) [''JFK''] ?od ?idg = None" by code_simp
  have f: "findPath ''JFK'' ?g = [''JFK'', ''SFO'', ''LAX'', ''JFK'', ''ATL'']" by code_simp
  from cycle_error[OF a b c d e]
  have "ReconstructItinerary forward ?T = Inr (findPath ''JFK'' ?g)" by blast
  then have r: "ReconstructItinerary forward ?T = Inr [''JFK'', ''SFO'', ''LAX'', ''JFK'', ''ATL'']"
    unfolding f .
  then have n: "ReconstructItinerary forward ?T \<noteq> Inl ErrCycleInItinerary" by simp
  from a b c d e f r n show ?thesis by blast
qed

text \<open>
  C6.  A call is deterministic: whatever orders the four \<open>range\<close> loops follow over
  their maps, as long as each visits every key once, the call returns the same
  itinerary or the same error.
\<close>

theorem deterministic:
  assumes "fair sch" "fair sch'"
  shows "ReconstructItinerary sch tickets = ReconstructItinerary sch' tickets"
  using assms by (rule ReconstructItinerary_order)

theorem deterministic_witness:
  "fair forward \<and> fair backward
   \<and> ReconstructItinerary forward
         [[''JFK'', ''SFO''], [''SFO'', ''LAX''], [''LAX'', ''JFK''], [''JFK'', ''ATL'']]
     = ReconstructItinerary backward
         [[''JFK'', ''SFO''], [''SFO'', ''LAX''], [''LAX'', ''JFK''], [''JFK'', ''ATL'']]"
  using deterministic[OF fair_forward fair_backward] fair_forward fair_backward by blast

text \<open>
  C7.  The tickets JFK-SFO, JFK-ATL, SFO-ATL, ATL-JFK give the itinerary
  JFK, ATL, JFK, SFO, ATL and no error.
\<close>

theorem example_tie_break:
  assumes "fair sch"
  shows "ReconstructItinerary sch
     [[''JFK'', ''SFO''], [''JFK'', ''ATL''], [''SFO'', ''ATL''], [''ATL'', ''JFK'']]
   = Inr [''JFK'', ''ATL'', ''JFK'', ''SFO'', ''ATL'']"
  using ReconstructItinerary_order[OF assms fair_forward] example_forward by simp

theorem example_tie_break_witness:
  "fair forward
   \<and> ReconstructItinerary forward
     [[''JFK'', ''SFO''], [''JFK'', ''ATL''], [''SFO'', ''ATL''], [''ATL'', ''JFK'']]
   = Inr [''JFK'', ''ATL'', ''JFK'', ''SFO'', ''ATL'']"
  using example_tie_break[OF fair_forward] fair_forward by blast

text \<open>
  C8, as the specification states it, fails when the two strings are equal: the single
  ticket SFO-SFO leaves every node balanced, and the call returns
  \<open>ErrDifferentStartingPoints\<close>.
\<close>

theorem single_ticket_counterexample:
  "ReconstructItinerary forward [[''SFO'', ''SFO'']] = Inl ErrDifferentStartingPoints"
  by code_simp

text \<open>
  C8, amended.  For every pair of different strings A and B, the single ticket
  from A to B gives the itinerary A, B and no error.
\<close>

theorem single_ticket:
  assumes "fair sch" "A \<noteq> B"
  shows "ReconstructItinerary sch [[A, B]] = Inr [A, B]"
  using ReconstructItinerary_order[OF assms(1) fair_forward, of "[[A, B]]"]
    ReconstructItinerary_single_forward[OF assms(2)] by simp

theorem single_ticket_witness:
  "fair backward \<and> ''SFO'' \<noteq> ''JFK''
   \<and> ReconstructItinerary backward [[''SFO'', ''JFK'']] = Inr [''SFO'', ''JFK'']"
  using single_ticket[OF fair_backward, of "''SFO''" "''JFK''"] fair_backward by simp

text \<open>
  C9.  When every ticket has at least two elements, no read of \<open>ticket[0]\<close> or
  \<open>ticket[1]\<close> is out of range: a call returns an itinerary or one of the three
  classified errors, never the panic.  (The model is a total function, the walk loop
  by its termination proof.)
\<close>

theorem no_index_panic:
  assumes "well_formed tickets"
  shows "ReconstructItinerary sch tickets \<noteq> Inl PanicIndexOutOfRange"
proof (cases "distinct (map ticket_key tickets)")
  case True
  from ReconstructItinerary_not_duplicate(2)[OF assms True] show ?thesis .
next
  case False
  from ReconstructItinerary_duplicate[OF assms False, of sch] show ?thesis by simp
qed

theorem no_index_panic_witness:
  "well_formed [[''LAX'', ''DXB''], [''JFK'', ''LAX''], [''SFO'', ''SJC''], [''DXB'', ''SFO'']]
   \<and> ReconstructItinerary forward
         [[''LAX'', ''DXB''], [''JFK'', ''LAX''], [''SFO'', ''SJC''], [''DXB'', ''SFO'']]
       \<noteq> Inl PanicIndexOutOfRange"
  using no_index_panic[of
      "[[''LAX'', ''DXB''], [''JFK'', ''LAX''], [''SFO'', ''SJC''], [''DXB'', ''SFO'']]" forward]
  by (simp add: well_formed_def)

text \<open>
  C10.  From every start node and every graph, the walk loop of \<open>findPath\<close> stops: it
  leaves after some number \<open>n\<close> of iterations, the stack being non-empty before each of
  them and empty after the last, and \<open>n\<close> is at most twice the number of edges plus one.
\<close>

theorem findPath_iterations:
  "\<exists>n \<le> 2 * edge_count graph + 1.
      findPath_loop \<lparr>wgraph = graph, wstack = [start], wresult = []\<rparr>
        = (findPath_step ^^ n) \<lparr>wgraph = graph, wstack = [start], wresult = []\<rparr>
      \<and> wstack ((findPath_step ^^ n) \<lparr>wgraph = graph, wstack = [start], wresult = []\<rparr>) = []
      \<and> (\<forall>m < n. wstack ((findPath_step ^^ m) \<lparr>wgraph = graph, wstack = [start], wresult = []\<rparr>) \<noteq> [])"
proof -
  let ?w = "\<lparr>wgraph = graph, wstack = [start], wresult = []\<rparr>"
  from findPath_loop_iterations[of ?w] obtain n where
    n: "n + 2 * edge_count (wgraph (findPath_loop ?w)) = walk_measure ?w"
    and r: "findPath_loop ?w = (findPath_step ^^ n) ?w"
       "wstack ((findPath_step ^^ n) ?w) = []"
       "\<forall>m < n. wstack ((findPath_step ^^ m) ?w) \<noteq> []"
    by blast
  from n have "n \<le> 2 * edge_count graph + 1" by (simp add: walk_measure_def)
  with r show ?thesis by blast
qed

theorem findPath_iterations_witness:
  "\<exists>n \<le> 5.
      findPath_loop \<lparr>wgraph = [(''JFK'', [''SFO'', ''ATL''])], wstack = [''JFK''], wresult = []\<rparr>
        = (findPath_step ^^ n) \<lparr>wgraph = [(''JFK'', [''SFO'', ''ATL''])], wstack = [''JFK''], wresult = []\<rparr>
      \<and> wstack ((findPath_step ^^ n) \<lparr>wgraph = [(''JFK'', [''SFO'', ''ATL''])], wstack = [''JFK''], wresult = []\<rparr>) = []
      \<and> (\<forall>m < n. wstack ((findPath_step ^^ m) \<lparr>wgraph = [(''JFK'', [''SFO'', ''ATL''])], wstack = [''JFK''], wresult = []\<rparr>) \<noteq> [])"
proof -
  have "2 * edge_count [(''JFK'', [''SFO'', ''ATL''])] + 1 = 5" by (simp add: edge_count_def)
  with findPath_iterations[of "[(''JFK'', [''SFO'', ''ATL''])]" "''JFK''"] show ?thesis by simp
qed

end
